theory Spec2Isabelle
  imports Main "HOL-Library.Multiset"
begin

section \<open>Values, records and errors\<close>

text \<open>
  The indexers of \<^verbatim>\<open>pyterrier/terrier/index.py\<close> consume an iterable of Python
  objects. A value is an integer, a string, \<^verbatim>\<open>None\<close> or a dictionary with string
  keys; a dictionary is an association list in insertion order, looked up with
  \<open>map_of\<close>. Floating-point values are not modelled.
\<close>

datatype pyval =
    VInt int
  | VStr string
  | VNone
  | VDict "(string \<times> pyval) list"

type_synonym pydict = "(string \<times> pyval) list"

text \<open>
  Every exception the modelled code raises. The comment gives the Python class and the
  message of the source.
\<close>

datatype error =
    NotDictLike                        \<comment> \<open>ValueError: Was passed ... while expected dict-like object\<close>
  | MetaKeyNotFound string "string list" \<comment> \<open>ValueError: Indexing meta key k not found in first document (keys ...)\<close>
  | MetaTooLong string int nat         \<comment> \<open>ValueError: Indexing meta key k length requested b but exceeded ... (actual length n)\<close>
  | KeyError string                    \<comment> \<open>KeyError from \<^verbatim>\<open>doc[f]\<close>\<close>
  | TypeError                          \<comment> \<open>TypeError: no \<^verbatim>\<open>len()\<close>, not subscriptable, \<^verbatim>\<open>int()\<close> of a non-number\<close>
  | AttributeError                     \<comment> \<open>AttributeError: no \<^verbatim>\<open>items\<close>\<close>
  | IntValueError string               \<comment> \<open>ValueError: invalid literal for int()\<close>
  | IndexError                         \<comment> \<open>IndexError: pop from an empty deque\<close>
  | PretokenisedFields                 \<comment> \<open>ValueError: pretokenised not supported for fields\<close>
  | PretokenisedTextAttrs              \<comment> \<open>ValueError: pretokenised ignores text_attrs\<close>
  | VersionAssertion                   \<comment> \<open>AssertionError: Terrier 5.11 is required\<close>
  | FieldsArgument                     \<comment> \<open>ValueError: Use fields and text_attrs constructor kwargs / Specify the text attribute ...\<close>
  | IndexAlreadyExists string          \<comment> \<open>ValueError: Index already exists at path\<close>
  | IndexCalledOnce                    \<comment> \<open>Exception: Index method can be called only once\<close>
  | MemoryBlocks                       \<comment> \<open>Exception: Memory indexing with positions not yet implemented\<close>
  | ThreadsNotPositive                 \<comment> \<open>AssertionError: threads must be positive\<close>
  | ThreadsMemory                      \<comment> \<open>AssertionError: IterDictIndexer does not support multiple threads for IndexingType.MEMORY\<close>
  | ThreadsWindows                     \<comment> \<open>AssertionError: IterDictIndexer does not support multiple threads on Windows\<close>
  | PretokenisedBlocks                 \<comment> \<open>AssertionError: pretokenised isnt compatible with blocks\<close>
  | HookError nat                      \<comment> \<open>whatever a cleanup hook raises; the number identifies the hook\<close>

text \<open>A warning of \<^verbatim>\<open>_validate_doc_dict\<close>: the key, the requested length, the actual length.\<close>

datatype warning = MetaLengthWarning string int nat

section \<open>Validation of the first document\<close>

text \<open>\<^verbatim>\<open>_is_dict\<close>: the object has \<^verbatim>\<open>__getitem__\<close> and \<^verbatim>\<open>items\<close>.\<close>

fun is_dict :: "pyval \<Rightarrow> bool" where
  "is_dict (VDict d) = True"
| "is_dict v = False"

text \<open>Python's \<^verbatim>\<open>len\<close>: integers and \<^verbatim>\<open>None\<close> have none.\<close>

fun py_len :: "pyval \<Rightarrow> nat option" where
  "py_len (VStr s) = Some (length s)"
| "py_len (VDict d) = Some (length d)"
| "py_len (VInt i) = None"
| "py_len VNone = None"

text \<open>
  The loop \<^verbatim>\<open>for k in self.meta\<close> of \<^verbatim>\<open>_validate_doc_dict\<close>, over the metadata
  configuration in its dictionary order, with the warnings emitted so far. The result is
  the warnings emitted when the loop ends and the exception that ended it, if one did.
\<close>

fun validate_keys :: "(string \<times> int) list \<Rightarrow> pydict \<Rightarrow> warning list \<Rightarrow> warning list \<times> error option" where
  "validate_keys [] obj ws = (ws, None)"
| "validate_keys ((k, b) # rest) obj ws =
     (case map_of obj k of
        None \<Rightarrow> (ws, Some (MetaKeyNotFound k (map fst obj)))
      | Some v \<Rightarrow>
          (case py_len v of
             None \<Rightarrow> (ws, Some TypeError)
           | Some n \<Rightarrow>
               if int n > b then
                 (if k = ''docno'' then (ws, Some (MetaTooLong k b n))
                  else validate_keys rest obj (ws @ [MetaLengthWarning k b n]))
               else validate_keys rest obj ws))"

text \<open>
  \<^verbatim>\<open>_validate_doc_dict\<close>. The metadata configuration is a dictionary here, so the test
  \<^verbatim>\<open>self.meta is not None\<close> holds.
\<close>

definition validate_doc_dict :: "(string \<times> int) list \<Rightarrow> pyval \<Rightarrow> warning list \<times> error option" where
  "validate_doc_dict meta obj =
     (if \<not> is_dict obj then ([], Some NotDictLike)
      else (case obj of VDict d \<Rightarrow> validate_keys meta d [] | other \<Rightarrow> ([], Some NotDictLike)))"

section \<open>Projection of the stream\<close>

text \<open>
  \<^verbatim>\<open>all_cols = {'docno'} | set(self.text_attrs) | set(self.meta.keys())\<close>: a Python set,
  here a duplicate-free list in one fixed order.
\<close>

definition all_cols :: "string list \<Rightarrow> (string \<times> int) list \<Rightarrow> string list" where
  "all_cols text_attrs meta = remdups (''docno'' # text_attrs @ map fst meta)"

text \<open>\<^verbatim>\<open>doc[f]\<close>.\<close>

fun getitem :: "pyval \<Rightarrow> string \<Rightarrow> error + pyval" where
  "getitem (VDict d) f = (case map_of d f of None \<Rightarrow> Inl (KeyError f) | Some v \<Rightarrow> Inr v)"
| "getitem v f = Inl TypeError"

text \<open>\<^verbatim>\<open>{f: doc[f] for f in all_cols}\<close>: the first failing lookup raises.\<close>

fun narrow :: "string list \<Rightarrow> pyval \<Rightarrow> error + pydict" where
  "narrow [] doc = Inr []"
| "narrow (f # fs) doc =
     (case getitem doc f of
        Inl e \<Rightarrow> Inl e
      | Inr v \<Rightarrow> (case narrow fs doc of Inl e \<Rightarrow> Inl e | Inr r \<Rightarrow> Inr ((f, v) # r)))"

text \<open>
  \<^verbatim>\<open>more_itertools.spy(it)\<close> with its default \<^verbatim>\<open>n=1\<close>: the head that was read from the
  source, and an iterator over the whole stream again.
\<close>

definition spy :: "'a list \<Rightarrow> 'a list \<times> 'a list" where
  "spy it = (take 1 it, it)"

text \<open>
  A generator expression over the stream: element by element, on demand. Running it to
  its end gives the records it yields and the exception that ended it, if one did;
  nothing is yielded after an exception.
\<close>

fun run_gen :: "('a \<Rightarrow> error + 'b) \<Rightarrow> 'a list \<Rightarrow> 'b list \<times> error option" where
  "run_gen f [] = ([], None)"
| "run_gen f (x # xs) =
     (case f x of
        Inl e \<Rightarrow> ([], Some e)
      | Inr y \<Rightarrow> (case run_gen f xs of (ys, r) \<Rightarrow> (y # ys, r)))"

text \<open>
  What a call of \<^verbatim>\<open>_filter_iterable\<close> has done when it returns or raises: the number of
  records read from the source, the warnings emitted, and either the exception or the
  stream the returned generator expression will walk on demand.
\<close>

record filter_outcome =
  consumed :: nat
  warned :: "warning list"
  returned :: "error + pyval list"

definition filter_iterable :: "string list \<Rightarrow> (string \<times> int) list \<Rightarrow> pyval list \<Rightarrow> filter_outcome" where
  "filter_iterable text_attrs meta it =
     (case spy it of (first_docs, it') \<Rightarrow>
        if length first_docs > 0 then
          (case validate_doc_dict meta (hd first_docs) of
             (ws, Some e) \<Rightarrow> \<lparr>consumed = length first_docs, warned = ws, returned = Inl e\<rparr>
           | (ws, None) \<Rightarrow> \<lparr>consumed = length first_docs, warned = ws, returned = Inr it'\<rparr>)
        else \<lparr>consumed = length first_docs, warned = [], returned = Inr it'\<rparr>)"

text \<open>The records the returned generator yields when it is run to its end.\<close>

definition projected :: "string list \<Rightarrow> (string \<times> int) list \<Rightarrow> pyval list \<Rightarrow> pydict list \<times> error option" where
  "projected text_attrs meta it' = run_gen (narrow (all_cols text_attrs meta)) it'"

section \<open>The distributor\<close>

text \<open>
  Python's \<^verbatim>\<open>int(v)\<close>. How a string is read as an integer literal is the
  interpreter's business: \<open>str2int\<close> is that function, \<open>None\<close> where it raises.
\<close>

fun py_int :: "(string \<Rightarrow> int option) \<Rightarrow> pyval \<Rightarrow> error + int" where
  "py_int str2int (VInt i) = Inr i"
| "py_int str2int (VStr s) = (case str2int s of None \<Rightarrow> Inl (IntValueError s) | Some i \<Rightarrow> Inr i)"
| "py_int str2int VNone = Inl TypeError"
| "py_int str2int (VDict d) = Inl TypeError"

text \<open>\<^verbatim>\<open>{k: int(v) for k, v in doc['toks'].items()}\<close>.\<close>

fun cast_items :: "(string \<Rightarrow> int option) \<Rightarrow> pydict \<Rightarrow> error + pydict" where
  "cast_items str2int [] = Inr []"
| "cast_items str2int ((k, v) # kvs) =
     (case py_int str2int v of
        Inl e \<Rightarrow> Inl e
      | Inr i \<Rightarrow> (case cast_items str2int kvs of Inl e \<Rightarrow> Inl e | Inr r \<Rightarrow> Inr ((k, VInt i) # r)))"

text \<open>\<^verbatim>\<open>doc[key] = v\<close> for a key the dictionary has: the key keeps its place.\<close>

definition setitem :: "pydict \<Rightarrow> string \<Rightarrow> pyval \<Rightarrow> pydict" where
  "setitem doc key v = map (\<lambda>(k, old). if k = key then (k, v) else (k, old)) doc"

text \<open>
  \<^verbatim>\<open>if 'toks' in doc: doc['toks'] = {...}\<close>, giving the record that
  \<^verbatim>\<open>json.dump\<close> then writes as one line.
\<close>

definition cast_toks :: "(string \<Rightarrow> int option) \<Rightarrow> pydict \<Rightarrow> error + pydict" where
  "cast_toks str2int doc =
     (case map_of doc ''toks'' of
        None \<Rightarrow> Inr doc
      | Some (VDict t) \<Rightarrow>
          (case cast_items str2int t of
             Inl e \<Rightarrow> Inl e
           | Inr t' \<Rightarrow> Inr (setitem doc ''toks'' (VDict t')))
      | Some other \<Rightarrow> Inl AttributeError)"

text \<open>
  The state of \<^verbatim>\<open>_write_fifos\<close>: what has been written to each fifo, a fifo being
  its position in the list \<^verbatim>\<open>fifos\<close>; the deque \<^verbatim>\<open>ready\<close> (\<open>None\<close> before the
  first document); the number of \<^verbatim>\<open>select\<close> calls made. The answers of
  \<^verbatim>\<open>select.select([], fifos, [])\<close> come from the operating system: \<open>sel n\<close> is the
  list of writable fifos the \<open>n\<close>-th call returns.
\<close>

record wstate =
  chans :: "pydict list list"
  ready :: "nat list option"
  selects :: nat

definition refill :: "(nat \<Rightarrow> nat list) \<Rightarrow> wstate \<Rightarrow> wstate" where
  "refill sel st =
     (if length (chans st) > 1
      then st\<lparr>ready := Some (sel (selects st)), selects := Suc (selects st)\<rparr>
      else st\<lparr>ready := Some [0..<length (chans st)]\<rparr>)"

text \<open>\<^verbatim>\<open>not ready\<close>: \<^verbatim>\<open>None\<close> or an empty deque.\<close>

fun not_ready :: "nat list option \<Rightarrow> bool" where
  "not_ready None = True"
| "not_ready (Some r) = (r = [])"

text \<open>
  The loop \<^verbatim>\<open>for doc in it\<close>. The iterator is the generator expression of
  \<^verbatim>\<open>_filter_iterable\<close>: an element is \<open>Inl e\<close> when producing it raises.
\<close>

fun write_loop :: "(string \<Rightarrow> int option) \<Rightarrow> (nat \<Rightarrow> nat list) \<Rightarrow> wstate \<Rightarrow> (error + pydict) list
    \<Rightarrow> wstate \<times> error option" where
  "write_loop str2int sel st [] = (st, None)"
| "write_loop str2int sel st (Inl e # rest) = (st, Some e)"
| "write_loop str2int sel st (Inr doc # rest) =
     (let st1 = (if not_ready (ready st) then refill sel st else st) in
      case the (ready st1) of
        [] \<Rightarrow> (st1, Some IndexError)
      | i # r \<Rightarrow>
          (case cast_toks str2int doc of
             Inl e \<Rightarrow> (st1\<lparr>ready := Some r\<rparr>, Some e)
           | Inr line \<Rightarrow>
               write_loop str2int sel
                 (st1\<lparr>ready := Some r, chans := (chans st1)[i := chans st1 ! i @ [line]]\<rparr>) rest))"

definition write_fifos :: "(string \<Rightarrow> int option) \<Rightarrow> (nat \<Rightarrow> nat list) \<Rightarrow> nat \<Rightarrow> (error + pydict) list
    \<Rightarrow> wstate \<times> error option" where
  "write_fifos str2int sel n it =
     write_loop str2int sel \<lparr>chans = replicate n [], ready = None, selects = 0\<rparr> it"

text \<open>\<^verbatim>\<open>select\<close> blocks until a fifo is writable and returns fifos it was given.\<close>

definition select_ok :: "(nat \<Rightarrow> nat list) \<Rightarrow> nat \<Rightarrow> bool" where
  "select_ok sel n = (\<forall>c. sel c \<noteq> [] \<and> (\<forall>i \<in> set (sel c). i < n))"

section \<open>The indexer object\<close>

datatype indexing_type = CLASSIC | SINGLEPASS | MEMORY

text \<open>A cleanup hook: its number, and whether calling it raises.\<close>

datatype hook = Hook nat bool

text \<open>
  The fields of \<^verbatim>\<open>TerrierIndexer\<close> and \<^verbatim>\<open>_BaseIterDictIndexer\<close> that the modelled
  methods read (\<open>fields_flag\<close> is \<^verbatim>\<open>self.fields\<close>). Stemmer and stopwords are what
  \<^verbatim>\<open>_to_obj\<close> made of the arguments.
\<close>

record indexer =
  path :: "string option"
  index_dir :: string
  index_called :: bool
  blocks :: bool
  itype :: indexing_type
  stemmer :: "string option"
  stopwords :: "string option"
  overwrite :: bool
  threads :: int
  text_attrs :: "string list"
  meta :: "(string \<times> int) list"
  pretokenised :: bool
  fields_flag :: bool
  cleanup_hooks :: "hook list"

text \<open>
  What lies outside the object: the files that exist, the index loading profile of the
  Java class \<^verbatim>\<open>Index\<close> (\<^verbatim>\<open>setIndexLoadingProfileAsRetrieval\<close>), and the hooks
  called so far.
\<close>

record world =
  files :: "string list"
  retrieval :: bool
  hooks_run :: "nat list"

text \<open>The keyword arguments of the constructor.\<close>

record init_args =
  a_index_path :: string
  a_meta :: "(string \<times> int) list"
  a_text_attrs :: "string list"
  a_pretokenised :: bool
  a_fields :: bool
  a_threads :: int
  a_blocks :: bool
  a_overwrite :: bool
  a_type :: indexing_type
  a_stemmer :: "string option"
  a_stopwords :: "string option"

text \<open>\<^verbatim>\<open>TerrierIndexer.__init__\<close>; the subclass fields get their values afterwards.\<close>

definition TerrierIndexer_init :: "init_args \<Rightarrow> indexer" where
  "TerrierIndexer_init a =
     \<lparr>path = (if a_type a = MEMORY then None else Some (a_index_path a @ ''/data.properties'')),
      index_dir = a_index_path a,
      index_called = False,
      blocks = a_blocks a,
      itype = a_type a,
      stemmer = a_stemmer a,
      stopwords = a_stopwords a,
      overwrite = a_overwrite a,
      threads = 1,
      text_attrs = [],
      meta = [],
      pretokenised = False,
      fields_flag = False,
      cleanup_hooks = []\<rparr>"

text \<open>
  \<^verbatim>\<open>_BaseIterDictIndexer.__init__\<close>; \<open>version_ok\<close> is the outcome of
  \<^verbatim>\<open>pt.terrier.check_version("5.11")\<close>.
\<close>

definition BaseIterDictIndexer_init :: "bool \<Rightarrow> init_args \<Rightarrow> error + indexer" where
  "BaseIterDictIndexer_init version_ok a =
     (let self = TerrierIndexer_init a in
      if \<not> version_ok then Inl VersionAssertion
      else
        let self = self\<lparr>threads := a_threads a, text_attrs := a_text_attrs a, meta := a_meta a,
                        pretokenised := a_pretokenised a, fields_flag := a_fields a\<rparr>
        in if pretokenised self then
             (if fields_flag self then Inl PretokenisedFields
              else if text_attrs self \<noteq> [''text''] then Inl PretokenisedTextAttrs
              else Inr (self\<lparr>stemmer := None, stopwords := None, text_attrs := [''toks'']\<rparr>))
           else Inr self)"

definition checkIndexExists :: "indexer \<Rightarrow> world \<Rightarrow> error option" where
  "checkIndexExists self w =
     (case path self of
        None \<Rightarrow> None
      | Some p \<Rightarrow>
          if p \<in> set (files w) \<and> \<not> overwrite self then Some (IndexAlreadyExists p)
          else if index_called self then Some IndexCalledOnce
          else None)"

datatype indexer_class =
  BasicIndexer | BlockIndexer | BasicSinglePassIndexer | BlockSinglePassIndexer | BasicMemoryIndexer

datatype merger_class = StructureMerger | BlockStructureMerger

text \<open>\<^verbatim>\<open>indexerAndMergerClasses\<close>, without the Terrier properties it sets.\<close>

definition indexerAndMergerClasses :: "indexer \<Rightarrow> error + indexer_class \<times> merger_class option" where
  "indexerAndMergerClasses self =
     (case itype self of
        SINGLEPASS \<Rightarrow>
          if blocks self then Inr (BlockSinglePassIndexer, Some BlockStructureMerger)
          else Inr (BasicSinglePassIndexer, Some StructureMerger)
      | CLASSIC \<Rightarrow>
          if blocks self then Inr (BlockIndexer, Some BlockStructureMerger)
          else Inr (BasicIndexer, Some StructureMerger)
      | MEMORY \<Rightarrow>
          if blocks self then Inl MemoryBlocks
          else Inr (BasicMemoryIndexer, None))"

text \<open>\<^verbatim>\<open>for hook in self.cleanup_hooks: hook(self, index)\<close>.\<close>

fun run_hooks :: "hook list \<Rightarrow> world \<Rightarrow> world \<times> error option" where
  "run_hooks [] w = (w, None)"
| "run_hooks (Hook i raises # hs) w =
     (let w' = w\<lparr>hooks_run := hooks_run w @ [i]\<rparr>
      in if raises then (w', Some (HookError i)) else run_hooks hs w')"

text \<open>
  The reference an \<^verbatim>\<open>index\<close> call returns, with the documents each engine-side
  reader received: one list for the single indexer, one list per fifo for the parallel
  one.
\<close>

datatype indexref = MemoryRef "pydict list list" | DiskRef string "pydict list list"

type_synonym index_result = "(error + indexref) \<times> indexer \<times> world"

text \<open>
  \<^verbatim>\<open>_IterDictIndexer_nofifo.index\<close>. The engine reads the generator of
  \<^verbatim>\<open>_filter_iterable\<close> to its end; an exception of the generator ends the call.
\<close>

definition index_nofifo :: "indexer \<Rightarrow> world \<Rightarrow> pyval list \<Rightarrow> string list option \<Rightarrow> index_result" where
  "index_nofifo self w it fields_arg =
     (if fields_arg \<noteq> None then (Inl FieldsArgument, self, w)
      else (case checkIndexExists self w of
        Some e \<Rightarrow> (Inl e, self, w)
      | None \<Rightarrow>
         (if threads self \<noteq> 1 then (Inl ThreadsWindows, self, w)
          else (case indexerAndMergerClasses self of
            Inl e \<Rightarrow> (Inl e, self, w)
          | Inr cls \<Rightarrow>
             (if pretokenised self \<and> blocks self then (Inl PretokenisedBlocks, self, w)
              else (case returned (filter_iterable (text_attrs self) (meta self) it) of
                Inl e \<Rightarrow> (Inl e, self, w)
              | Inr it' \<Rightarrow>
                  (case projected (text_attrs self) (meta self) it' of
                     (docs, Some e) \<Rightarrow>
                       (Inl e, self\<lparr>index_called := index_called self \<or> pretokenised self\<rparr>, w)
                   | (docs, None) \<Rightarrow>
                      (let self' = self\<lparr>index_called := True\<rparr> in
                       if itype self = MEMORY then (Inr (MemoryRef [docs]), self', w)
                       else if length (cleanup_hooks self) > 0 then
                         (case run_hooks (cleanup_hooks self) (w\<lparr>retrieval := False\<rparr>) of
                            (w', Some e) \<Rightarrow> (Inl e, self', w')
                          | (w', None) \<Rightarrow>
                              (Inr (DiskRef (index_dir self @ ''/data.properties'') [docs]), self',
                               w'\<lparr>retrieval := True\<rparr>))
                       else (Inr (DiskRef (index_dir self @ ''/data.properties'') [docs]), self', w)))))))))"

text \<open>
  \<^verbatim>\<open>_IterDictIndexer_fifo.index\<close>. \<^verbatim>\<open>_filter_iterable\<close> is called by the caller's
  thread when the distributor thread is created; \<^verbatim>\<open>_write_fifos\<close> runs in that thread,
  where an exception ends the thread and closes the fifos without reaching the caller.
\<close>

definition index_fifo :: "(string \<Rightarrow> int option) \<Rightarrow> (nat \<Rightarrow> nat list) \<Rightarrow> indexer \<Rightarrow> world \<Rightarrow> pyval list
    \<Rightarrow> string list option \<Rightarrow> index_result" where
  "index_fifo str2int sel self w it fields_arg =
     (if fields_arg \<noteq> None then (Inl FieldsArgument, self, w)
      else (case checkIndexExists self w of
        Some e \<Rightarrow> (Inl e, self, w)
      | None \<Rightarrow>
          (case indexerAndMergerClasses self of
             Inl e \<Rightarrow> (Inl e, self, w)
           | Inr (Indexer, Merger) \<Rightarrow>
              (if \<not> (threads self > 0) then (Inl ThreadsNotPositive, self, w)
               else if Indexer = BasicMemoryIndexer \<and> threads self \<noteq> 1 then (Inl ThreadsMemory, self, w)
               else (case returned (filter_iterable (text_attrs self) (meta self) it) of
                 Inl e \<Rightarrow> (Inl e, self, w)
               | Inr it' \<Rightarrow>
                  (let written = chans (fst (write_fifos str2int sel (nat (threads self))
                                   (map (narrow (all_cols (text_attrs self) (meta self))) it')))
                   in if Indexer = BasicMemoryIndexer then
                        (case run_hooks (cleanup_hooks self) w of
                           (w', Some e) \<Rightarrow> (Inl e, self, w')
                         | (w', None) \<Rightarrow> (Inr (MemoryRef written), self, w'))
                      else if length (cleanup_hooks self) > 0 then
                        (case run_hooks (cleanup_hooks self) (w\<lparr>retrieval := False\<rparr>\<lparr>retrieval := True\<rparr>) of
                           (w', Some e) \<Rightarrow> (Inl e, self, w')
                         | (w', None) \<Rightarrow>
                             (Inr (DiskRef (index_dir self @ ''/data.properties'') written), self, w'))
                      else (Inr (DiskRef (index_dir self @ ''/data.properties'') written), self, w)))))))"

section \<open>Validation: lemmas\<close>

lemma validate_doc_dict_simps [simp]:
  "validate_doc_dict m (VDict d) = validate_keys m d []"
  "validate_doc_dict m (VInt i) = ([], Some NotDictLike)"
  "validate_doc_dict m (VStr s) = ([], Some NotDictLike)"
  "validate_doc_dict m VNone = ([], Some NotDictLike)"
  by (simp_all add: validate_doc_dict_def)

lemma validate_keys_append:
  "validate_keys (pre @ post) obj ws =
     (case validate_keys pre obj ws of
        (ws', Some e) \<Rightarrow> (ws', Some e)
      | (ws', None) \<Rightarrow> validate_keys post obj ws')"
proof (induction pre obj ws rule: validate_keys.induct)
  case (1 obj ws)
  then show ?case by (cases "validate_keys post obj ws") simp
next
  case (2 k b rest obj ws)
  then show ?case by (simp split: option.splits)
qed

lemma validate_keys_missing:
  "k \<in> set (map fst m) \<Longrightarrow> map_of obj k = None \<Longrightarrow> \<exists>ws' e. validate_keys m obj ws = (ws', Some e)"
proof (induction m arbitrary: ws)
  case Nil
  then show ?case by simp
next
  case (Cons kb rest)
  obtain k' b where kb: "kb = (k', b)" by (cases kb)
  show ?case
  proof (cases "k' = k")
    case True
    with Cons.prems kb show ?thesis by simp
  next
    case False
    with Cons.prems kb have "k \<in> set (map fst rest)" by auto
    from Cons.IH[OF this Cons.prems(2)] show ?thesis
      using kb by (simp split: option.splits)
  qed
qed


section \<open>The empty stream\<close>

text \<open>
  C10. For the empty input stream \<^verbatim>\<open>_filter_iterable\<close> validates nothing: it reads no
  record, emits no warning, raises no error, and the sequence it returns yields no record
  and ends without an exception.
\<close>

theorem empty_stream_passes:
  "filter_iterable ta m [] = \<lparr>consumed = 0, warned = [], returned = Inr []\<rparr>
   \<and> projected ta m [] = ([], None)"
  by (simp add: filter_iterable_def spy_def projected_def)

section \<open>Length bounds\<close>



section \<open>A missing metadata key\<close>

text \<open>
  C2, as amended. For a stream whose first record is a dictionary lacking a configured
  metadata key, \<^verbatim>\<open>_filter_iterable\<close> raises when it is called, having read exactly one
  record from the source, and returns no sequence. The error is the missing-field error
  for that key whenever the checks of the keys configured before it pass, and otherwise
  the error that the first failing one of those checks raises; the warnings emitted are
  those of the keys configured before the one that raises.
\<close>

theorem missing_key_raises_at_call:
  assumes "k \<in> set (map fst m)" and "map_of d k = None"
  shows "\<exists>e ws. filter_iterable ta m (VDict d # rest) = \<lparr>consumed = 1, warned = ws, returned = Inl e\<rparr>
           \<and> (\<forall>pre b post ws'. m = pre @ (k, b) # post \<and> validate_keys pre d [] = (ws', None)
                 \<longrightarrow> e = MetaKeyNotFound k (map fst d) \<and> ws = ws')
           \<and> (\<forall>pre b post ws' e'. m = pre @ (k, b) # post \<and> validate_keys pre d [] = (ws', Some e')
                 \<longrightarrow> e = e' \<and> ws = ws')"
proof -
  from validate_keys_missing[OF assms] obtain ws e where e: "validate_keys m d [] = (ws, Some e)"
    by blast
  have "filter_iterable ta m (VDict d # rest) = \<lparr>consumed = 1, warned = ws, returned = Inl e\<rparr>"
    using e by (simp add: filter_iterable_def spy_def)
  moreover have "e = MetaKeyNotFound k (map fst d) \<and> ws = ws'"
    if "m = pre @ (k, b) # post" "validate_keys pre d [] = (ws', None)" for pre b post ws'
    using that e assms(2) by (simp add: validate_keys_append)
  moreover have "e = e' \<and> ws = ws'"
    if "m = pre @ (k, b) # post" "validate_keys pre d [] = (ws', Some e')" for pre b post ws' e'
    using that e by (simp add: validate_keys_append)
  ultimately show ?thesis by blast
qed

theorem missing_key_raises_at_call_witness:
  "filter_iterable [''text''] [(''docno'', 20), (''title'', 5)]
      [VDict [(''docno'', VStr ''d1''), (''text'', VStr ''a b'')], VDict [(''docno'', VStr ''d2'')]]
     = \<lparr>consumed = 1, warned = [], returned = Inl (MetaKeyNotFound ''title'' [''docno'', ''text''])\<rparr>"
proof -
  have m: "[(''docno'', 20), (''title'', 5::int)] = [(''docno'', 20)] @ (''title'', 5) # []" by simp
  have v: "validate_keys [(''docno'', 20)] [(''docno'', VStr ''d1''), (''text'', VStr ''a b'')] [] = ([], None)"
    by simp
  from missing_key_raises_at_call[of "''title''" "[(''docno'', 20), (''title'', 5)]"
      "[(''docno'', VStr ''d1''), (''text'', VStr ''a b'')]" "[''text'']" "[VDict [(''docno'', VStr ''d2'')]]"]
  obtain e ws where e: "filter_iterable [''text''] [(''docno'', 20), (''title'', 5)]
      [VDict [(''docno'', VStr ''d1''), (''text'', VStr ''a b'')], VDict [(''docno'', VStr ''d2'')]]
     = \<lparr>consumed = 1, warned = ws, returned = Inl e\<rparr>"
    and r: "\<forall>pre b post ws'. [(''docno'', 20), (''title'', 5)] = pre @ (''title'', b) # post
              \<and> validate_keys pre [(''docno'', VStr ''d1''), (''text'', VStr ''a b'')] [] = (ws', None)
                 \<longrightarrow> e = MetaKeyNotFound ''title'' (map fst [(''docno'', VStr ''d1''), (''text'', VStr ''a b'')])
                     \<and> ws = ws'"
    by auto
  from r m v have "e = MetaKeyNotFound ''title'' (map fst [(''docno'', VStr ''d1''), (''text'', VStr ''a b'')])
      \<and> ws = []"
    by blast
  with e show ?thesis by simp
qed

text \<open>
  C2 as stated fails: with \<^verbatim>\<open>meta={'docno': 1, 'title': 5}\<close> and a first record
  \<^verbatim>\<open>{'docno': 'abc', 'text': 'a b'}\<close>, which lacks \<^verbatim>\<open>title\<close>, the loop reaches
  \<^verbatim>\<open>docno\<close> first and raises the too-long error, not the missing-field error.
\<close>

theorem missing_key_counterexample:
  "''title'' \<in> set (map fst [(''docno'', 1::int), (''title'', 5)])
   \<and> map_of [(''docno'', VStr ''abc''), (''text'', VStr ''a b'')] ''title'' = None
   \<and> filter_iterable [''text''] [(''docno'', 1), (''title'', 5)]
        [VDict [(''docno'', VStr ''abc''), (''text'', VStr ''a b'')]]
       = \<lparr>consumed = 1, warned = [], returned = Inl (MetaTooLong ''docno'' 1 3)\<rparr>"
  by (simp add: filter_iterable_def spy_def)

section \<open>Projection: lemmas\<close>

lemma narrow_keys: "narrow fs doc = Inr r \<Longrightarrow> map fst r = fs"
  by (induction fs arbitrary: r) (auto split: sum.splits)

lemma narrow_dict_values:
  "narrow fs (VDict d) = Inr r \<Longrightarrow> f \<in> set fs \<Longrightarrow> map_of r f = map_of d f"
proof (induction fs arbitrary: r)
  case Nil
  then show ?case by simp
next
  case (Cons g fs)
  from Cons.prems(1) obtain w r' where w: "map_of d g = Some w" and r': "narrow fs (VDict d) = Inr r'"
    and r: "r = (g, w) # r'"
    by (auto split: sum.splits option.splits)
  show ?case
  proof (cases "f = g")
    case True
    with r w show ?thesis by simp
  next
    case False
    with Cons.prems(2) have "f \<in> set fs" by simp
    from Cons.IH[OF r' this] False r show ?thesis by simp
  qed
qed

lemma narrow_is_dict: "narrow fs doc = Inr r \<Longrightarrow> fs \<noteq> [] \<Longrightarrow> \<exists>d. doc = VDict d"
  by (cases doc; cases fs) simp_all

lemma narrow_dict_ok:
  "set fs \<subseteq> fst ` set d \<Longrightarrow> \<exists>r. narrow fs (VDict d) = Inr r"
proof (induction fs)
  case Nil
  then show ?case by simp
next
  case (Cons f fs)
  then obtain r where r: "narrow fs (VDict d) = Inr r" by auto
  from Cons.prems have "f \<in> fst ` set d" by simp
  then have "map_of d f \<noteq> None" by (simp add: map_of_eq_None_iff)
  then obtain v where "map_of d f = Some v" by blast
  with r show ?case by simp
qed

lemma narrow_dict_fail:
  "\<not> set fs \<subseteq> fst ` set d \<Longrightarrow>
     \<exists>f. narrow fs (VDict d) = Inl (KeyError f) \<and> f \<in> set fs \<and> f \<notin> fst ` set d"
proof (induction fs)
  case Nil
  then show ?case by simp
next
  case (Cons g fs)
  show ?case
  proof (cases "map_of d g")
    case None
    then have "g \<notin> fst ` set d" by (simp add: map_of_eq_None_iff)
    with None show ?thesis by auto
  next
    case (Some w)
    then have "g \<in> fst ` set d" by (metis map_of_eq_None_iff option.distinct(1))
    with Cons.prems have "\<not> set fs \<subseteq> fst ` set d" by simp
    from Cons.IH[OF this] obtain f where "narrow fs (VDict d) = Inl (KeyError f)"
      "f \<in> set fs" "f \<notin> fst ` set d" by blast
    with Some show ?thesis by auto
  qed
qed

lemma narrow_not_dict: "fs \<noteq> [] \<Longrightarrow> \<forall>d. x \<noteq> VDict d \<Longrightarrow> narrow fs x = Inl TypeError"
  by (cases x; cases fs) simp_all

lemma run_gen_all:
  "map f xs = map Inr ys \<Longrightarrow> run_gen f xs = (ys, None)"
proof (induction xs arbitrary: ys)
  case Nil
  then show ?case by simp
next
  case (Cons x xs)
  then obtain y ys' where "ys = y # ys'" "f x = Inr y" "map f xs = map Inr ys'"
    by (cases ys) auto
  with Cons.IH[of ys'] show ?case by simp
qed

lemma run_gen_prefix_fail:
  "map f pre = map Inr ys \<Longrightarrow> f x = Inl e \<Longrightarrow> run_gen f (pre @ x # rest) = (ys, Some e)"
proof (induction pre arbitrary: ys)
  case Nil
  then show ?case by simp
next
  case (Cons p pre)
  then obtain y ys' where "ys = y # ys'" "f p = Inr y" "map f pre = map Inr ys'"
    by (cases ys) auto
  with Cons.IH[of ys'] Cons.prems(2) show ?case by simp
qed

lemma map_Inr_all:
  "\<forall>x \<in> set xs. \<exists>y. f x = Inr y \<Longrightarrow> \<exists>ys. map f xs = map Inr ys"
proof (induction xs)
  case Nil
  then show ?case by simp
next
  case (Cons x xs)
  then obtain y ys where "f x = Inr y" "map f xs = map Inr ys" by auto
  then have "map f (x # xs) = map Inr (y # ys)" by simp
  then show ?case by blast
qed

lemma map_Inr_nth:
  "map f xs = map Inr ys \<Longrightarrow> i < length xs \<Longrightarrow> f (xs ! i) = Inr (ys ! i)"
proof -
  assume m: "map f xs = map Inr ys" and i: "i < length xs"
  from m have l: "length ys = length xs" by (metis length_map)
  from i have "f (xs ! i) = map f xs ! i" by simp
  also have "\<dots> = map Inr ys ! i" using m by simp
  also have "\<dots> = Inr (ys ! i)" using i l by simp
  finally show ?thesis .
qed

lemma filter_iterable_returned:
  "returned (filter_iterable ta m it) = Inr it' \<Longrightarrow> it' = it"
  by (cases it; cases "validate_doc_dict m (hd it)"; cases "snd (validate_doc_dict m (hd it))")
     (simp_all add: filter_iterable_def spy_def)

lemma set_all_cols: "set (all_cols ta m) = {''docno''} \<union> set ta \<union> set (map fst m)"
  unfolding all_cols_def by auto

lemma all_cols_nonempty: "all_cols ta m \<noteq> []"
proof -
  have "''docno'' \<in> set (all_cols ta m)" unfolding set_all_cols by simp
  then show ?thesis by auto
qed

lemma narrowed_record:
  assumes "narrow (all_cols ta m) x = Inr r"
  shows "set (map fst r) = {''docno''} \<union> set ta \<union> set (map fst m) \<and> distinct (map fst r)
       \<and> (\<exists>d. x = VDict d \<and> (\<forall>f \<in> set (map fst r). map_of r f = map_of d f))"
proof -
  have k: "map fst r = all_cols ta m" using assms by (rule narrow_keys)
  have s: "set (map fst r) = {''docno''} \<union> set ta \<union> set (map fst m)"
    unfolding k by (rule set_all_cols)
  have dd: "distinct (map fst r)" unfolding k all_cols_def by (rule distinct_remdups)
  from narrow_is_dict[OF assms all_cols_nonempty] obtain d where d: "x = VDict d" by blast
  have "\<forall>f \<in> set (map fst r). map_of r f = map_of d f"
    using narrow_dict_values[of "all_cols ta m" d r] assms d k by simp
  with s dd d show ?thesis by blast
qed

section \<open>The field projector\<close>

text \<open>
  C8 as stated fails: validation looks at the metadata keys of the first record only, so
  the stream \<^verbatim>\<open>[{'docno': 'd1', 'text': 'a b'}, {'docno': 'd2'}]\<close> passes
  \<^verbatim>\<open>_filter_iterable\<close> with \<^verbatim>\<open>meta={'docno': 20}\<close>, and the returned generator
  yields one narrowed record and then raises \<^verbatim>\<open>KeyError\<close> at the second record: two
  input records, one narrowed record.
\<close>

theorem projection_counterexample:
  "filter_iterable [''text''] [(''docno'', 20)]
      [VDict [(''docno'', VStr ''d1''), (''text'', VStr ''a b'')], VDict [(''docno'', VStr ''d2'')]]
     = \<lparr>consumed = 1, warned = [],
        returned = Inr [VDict [(''docno'', VStr ''d1''), (''text'', VStr ''a b'')],
                        VDict [(''docno'', VStr ''d2'')]]\<rparr>
   \<and> projected [''text''] [(''docno'', 20)]
      [VDict [(''docno'', VStr ''d1''), (''text'', VStr ''a b'')], VDict [(''docno'', VStr ''d2'')]]
     = ([[(''text'', VStr ''a b''), (''docno'', VStr ''d1'')]], Some (KeyError ''text''))"
  by (simp add: filter_iterable_def spy_def projected_def all_cols_def)

text \<open>
  C8, as amended. For every input stream that passes the validation of
  \<^verbatim>\<open>_filter_iterable\<close>, the returned sequence yields narrowed records in the original
  order, one per input record, up to the first record that is not a dictionary holding
  every column of \<^verbatim>\<open>all_cols\<close>; there it raises (\<^verbatim>\<open>KeyError\<close> for a missing column of
  a dictionary, \<^verbatim>\<open>TypeError\<close> otherwise) and yields nothing more. When every record is
  a dictionary holding every column, it yields one narrowed record for each record of the
  input and ends without an exception. The key set of each narrowed record is the union
  of \<^verbatim>\<open>docno\<close>, the text attributes and the metadata keys, without duplicates, and each
  of its values is the value the input record has under that key.
\<close>

theorem projection_one_to_one:
  assumes ret: "returned (filter_iterable ta m it) = Inr it'"
  shows "((\<forall>x \<in> set it. \<exists>d. x = VDict d \<and> set (all_cols ta m) \<subseteq> fst ` set d) \<longrightarrow>
            (\<exists>ys. projected ta m it' = (ys, None) \<and> length ys = length it
               \<and> (\<forall>i<length it.
                     set (map fst (ys ! i)) = {''docno''} \<union> set ta \<union> set (map fst m)
                   \<and> distinct (map fst (ys ! i))
                   \<and> (\<exists>d. it ! i = VDict d
                        \<and> (\<forall>f \<in> set (map fst (ys ! i)). map_of (ys ! i) f = map_of d f)))))
       \<and> (\<forall>pre x rest.
             it = pre @ x # rest
             \<and> (\<forall>y \<in> set pre. \<exists>d. y = VDict d \<and> set (all_cols ta m) \<subseteq> fst ` set d)
             \<and> \<not> (\<exists>d. x = VDict d \<and> set (all_cols ta m) \<subseteq> fst ` set d) \<longrightarrow>
            (\<exists>ys e. projected ta m it' = (ys, Some e) \<and> length ys = length pre
               \<and> (\<forall>i<length pre.
                     set (map fst (ys ! i)) = {''docno''} \<union> set ta \<union> set (map fst m)
                   \<and> distinct (map fst (ys ! i))
                   \<and> (\<exists>d. pre ! i = VDict d
                        \<and> (\<forall>f \<in> set (map fst (ys ! i)). map_of (ys ! i) f = map_of d f)))
               \<and> (\<forall>d. x = VDict d \<longrightarrow>
                     (\<exists>f. e = KeyError f \<and> f \<in> set (all_cols ta m) \<and> f \<notin> fst ` set d))
               \<and> ((\<forall>d. x \<noteq> VDict d) \<longrightarrow> e = TypeError)))"
proof -
  let ?cols = "all_cols ta m"
  let ?R = "\<lambda>x r. set (map fst r) = {''docno''} \<union> set ta \<union> set (map fst m)
                   \<and> distinct (map fst r)
                   \<and> (\<exists>d. x = VDict d \<and> (\<forall>f \<in> set (map fst r). map_of r f = map_of d f))"
  let ?G = "\<lambda>x. \<exists>d. x = VDict d \<and> set ?cols \<subseteq> fst ` set d"
  have it': "it' = it" using ret by (rule filter_iterable_returned)
  have good: "\<exists>ys. map (narrow ?cols) xs = map Inr ys \<and> (\<forall>i<length xs. ?R (xs ! i) (ys ! i))"
    if all: "\<forall>x \<in> set xs. ?G x" for xs
  proof -
    have "\<forall>x \<in> set xs. \<exists>r. narrow ?cols x = Inr r"
    proof
      fix x assume "x \<in> set xs"
      with all have "?G x" by (rule bspec)
      then obtain d where "x = VDict d" "set ?cols \<subseteq> fst ` set d" by (elim exE conjE)
      then show "\<exists>r. narrow ?cols x = Inr r" using narrow_dict_ok by simp
    qed
    then have "\<exists>ys. map (narrow ?cols) xs = map Inr ys" by (rule map_Inr_all)
    then obtain ys where ys: "map (narrow ?cols) xs = map Inr ys" by (elim exE)
    have q: "\<forall>i<length xs. ?R (xs ! i) (ys ! i)"
    proof (intro allI impI)
      fix i assume i: "i < length xs"
      have "narrow ?cols (xs ! i) = Inr (ys ! i)" using ys i by (rule map_Inr_nth)
      then show "?R (xs ! i) (ys ! i)" by (rule narrowed_record)
    qed
    show ?thesis by (rule exI[of _ ys], rule conjI, rule ys, rule q)
  qed
  have a: "\<exists>ys. projected ta m it' = (ys, None) \<and> length ys = length it
               \<and> (\<forall>i<length it. ?R (it ! i) (ys ! i))"
    if all: "\<forall>x \<in> set it. ?G x"
  proof -
    from good[OF all] obtain ys where ys: "map (narrow ?cols) it = map Inr ys"
      and p: "\<forall>i<length it. ?R (it ! i) (ys ! i)"
      by (elim exE conjE)
    have l: "length ys = length it" using ys by (metis length_map)
    have pr: "projected ta m it' = (ys, None)"
      using run_gen_all[OF ys] it' by (simp add: projected_def)
    show ?thesis by (rule exI[of _ ys], intro conjI, rule pr, rule l, rule p)
  qed
  have b: "\<exists>ys e. projected ta m it' = (ys, Some e) \<and> length ys = length pre
               \<and> (\<forall>i<length pre. ?R (pre ! i) (ys ! i))
               \<and> (\<forall>d. x = VDict d \<longrightarrow>
                     (\<exists>f. e = KeyError f \<and> f \<in> set ?cols \<and> f \<notin> fst ` set d))
               \<and> ((\<forall>d. x \<noteq> VDict d) \<longrightarrow> e = TypeError)"
    if split: "it = pre @ x # rest"
      and all: "\<forall>y \<in> set pre. ?G y"
      and bad: "\<not> ?G x"
    for pre x rest
  proof -
    from good[OF all] obtain ys where ys: "map (narrow ?cols) pre = map Inr ys"
      and p: "\<forall>i<length pre. ?R (pre ! i) (ys ! i)"
      by (elim exE conjE)
    have l: "length ys = length pre" using ys by (metis length_map)
    have "\<exists>e. narrow ?cols x = Inl e
            \<and> (\<forall>d. x = VDict d \<longrightarrow> (\<exists>f. e = KeyError f \<and> f \<in> set ?cols \<and> f \<notin> fst ` set d))
            \<and> ((\<forall>d. x \<noteq> VDict d) \<longrightarrow> e = TypeError)"
    proof (cases "\<exists>d. x = VDict d")
      case True
      then obtain d where d: "x = VDict d" by (elim exE)
      with bad have "\<not> set ?cols \<subseteq> fst ` set d" by simp
      from narrow_dict_fail[OF this] obtain f where
        f: "narrow ?cols (VDict d) = Inl (KeyError f)" "f \<in> set ?cols" "f \<notin> fst ` set d"
        by (elim exE conjE)
      show ?thesis
      proof (rule exI[of _ "KeyError f"], intro conjI allI impI)
        show "narrow ?cols x = Inl (KeyError f)" using f(1) d by simp
      next
        fix d' assume "x = VDict d'"
        with d have "d' = d" by simp
        with f show "\<exists>g. KeyError f = KeyError g \<and> g \<in> set ?cols \<and> g \<notin> fst ` set d'"
          by (intro exI[of _ f]) simp
      next
        assume "\<forall>d. x \<noteq> VDict d"
        with d show "KeyError f = TypeError" by simp
      qed
    next
      case False
      then have n: "\<forall>d. x \<noteq> VDict d" by simp
      have "narrow ?cols x = Inl TypeError"
        using all_cols_nonempty n by (rule narrow_not_dict)
      with n show ?thesis by simp
    qed
    then obtain e where e: "narrow ?cols x = Inl e"
      and ek: "\<forall>d. x = VDict d \<longrightarrow> (\<exists>f. e = KeyError f \<and> f \<in> set ?cols \<and> f \<notin> fst ` set d)"
      and et: "(\<forall>d. x \<noteq> VDict d) \<longrightarrow> e = TypeError"
      by (elim exE conjE)
    have pr: "projected ta m it' = (ys, Some e)"
      using run_gen_prefix_fail[OF ys e] it' split by (simp add: projected_def)
    show ?thesis
      by (rule exI[of _ ys], rule exI[of _ e], intro conjI, rule pr, rule l, rule p, rule ek, rule et)
  qed
  show ?thesis
    apply (intro conjI impI allI)
     apply (rule a, assumption)
    apply (elim conjE)
    apply (rule b; assumption)
    done
qed

theorem projection_one_to_one_witness:
  "\<exists>ys. projected [''text''] [(''docno'', 20)]
           [VDict [(''docno'', VStr ''d1''), (''text'', VStr ''a b''), (''url'', VStr ''u'')],
            VDict [(''text'', VStr ''c d''), (''docno'', VStr ''d2'')]] = (ys, None)
       \<and> length ys = 2 \<and> set (map fst (ys ! 1)) = {''docno'', ''text''}"
proof -
  let ?it = "[VDict [(''docno'', VStr ''d1''), (''text'', VStr ''a b''), (''url'', VStr ''u'')],
            VDict [(''text'', VStr ''c d''), (''docno'', VStr ''d2'')]]"
  have r: "returned (filter_iterable [''text''] [(''docno'', 20)] ?it) = Inr ?it"
    by (simp add: filter_iterable_def spy_def)
  have c: "\<forall>x \<in> set ?it. \<exists>d. x = VDict d \<and> set (all_cols [''text''] [(''docno'', 20)]) \<subseteq> fst ` set d"
    by (simp add: all_cols_def)
  note t = projection_one_to_one[OF r, THEN conjunct1, THEN mp, OF c]
  from t obtain ys where
    p: "projected [''text''] [(''docno'', 20)] ?it = (ys, None)" and l: "length ys = length ?it"
    and a: "\<forall>i<length ?it. set (map fst (ys ! i)) = {''docno''} \<union> set [''text''] \<union> set (map fst [(''docno'', 20::int)])
               \<and> distinct (map fst (ys ! i))
               \<and> (\<exists>d. ?it ! i = VDict d
                    \<and> (\<forall>f \<in> set (map fst (ys ! i)). map_of (ys ! i) f = map_of d f))"
    by (elim exE conjE)
  have "(1::nat) < length ?it" by simp
  with a have "set (map fst (ys ! 1)) = {''docno''} \<union> set [''text''] \<union> set (map fst [(''docno'', 20::int)])
               \<and> distinct (map fst (ys ! 1))
               \<and> (\<exists>d. ?it ! 1 = VDict d
                    \<and> (\<forall>f \<in> set (map fst (ys ! 1)). map_of (ys ! 1) f = map_of d f))"
    by (elim allE[of _ 1] impE)
  then have "set (map fst (ys ! 1)) = {''docno''} \<union> set [''text''] \<union> set (map fst [(''docno'', 20::int)])"
    by (rule conjunct1)
  then have "set (map fst (ys ! 1)) = {''docno'', ''text''}" by auto
  with p l show ?thesis by simp
qed

section \<open>Construction\<close>

text \<open>
  C7. Constructing an indexer with \<^verbatim>\<open>pretokenised=True\<close> and \<^verbatim>\<open>fields=True\<close> raises
  at construction time: the \<^verbatim>\<open>ValueError\<close> "pretokenised not supported for fields"
  (the version assertion comes first when the Terrier version is too old). When a
  construction with \<^verbatim>\<open>pretokenised=True\<close> is accepted, stemmer and stopwords are
  \<^verbatim>\<open>None\<close> and the text attributes are \<^verbatim>\<open>['toks']\<close>; it is accepted when
  \<^verbatim>\<open>fields\<close> is false and \<^verbatim>\<open>text_attrs\<close> was left at \<^verbatim>\<open>['text']\<close>.
\<close>

theorem pretokenised_construction:
  "(a_pretokenised a \<and> a_fields a \<longrightarrow>
      BaseIterDictIndexer_init version_ok a
        = Inl (if version_ok then PretokenisedFields else VersionAssertion))
   \<and> (\<forall>self. a_pretokenised a \<and> BaseIterDictIndexer_init version_ok a = Inr self \<longrightarrow>
          stemmer self = None \<and> stopwords self = None \<and> text_attrs self = [''toks'']
          \<and> \<not> a_fields a \<and> a_text_attrs a = [''text''])
   \<and> (a_pretokenised a \<and> \<not> a_fields a \<and> a_text_attrs a = [''text''] \<and> version_ok \<longrightarrow>
          (\<exists>self. BaseIterDictIndexer_init version_ok a = Inr self))"
  by (auto simp: BaseIterDictIndexer_init_def Let_def TerrierIndexer_init_def split: if_splits)

theorem pretokenised_construction_witness:
  "BaseIterDictIndexer_init True
      \<lparr>a_index_path = ''idx'', a_meta = [(''docno'', 20)], a_text_attrs = [''text''],
       a_pretokenised = True, a_fields = True, a_threads = 1, a_blocks = False,
       a_overwrite = False, a_type = CLASSIC, a_stemmer = Some ''porter'',
       a_stopwords = Some ''terrier''\<rparr> = Inl PretokenisedFields
   \<and> (\<exists>self. BaseIterDictIndexer_init True
      \<lparr>a_index_path = ''idx'', a_meta = [(''docno'', 20)], a_text_attrs = [''text''],
       a_pretokenised = True, a_fields = False, a_threads = 1, a_blocks = False,
       a_overwrite = False, a_type = CLASSIC, a_stemmer = Some ''porter'',
       a_stopwords = Some ''terrier''\<rparr> = Inr self
       \<and> stemmer self = None \<and> stopwords self = None \<and> text_attrs self = [''toks''])"
proof -
  let ?a = "\<lparr>a_index_path = ''idx'', a_meta = [(''docno'', 20)], a_text_attrs = [''text''],
       a_pretokenised = True, a_fields = True, a_threads = 1, a_blocks = False,
       a_overwrite = False, a_type = CLASSIC, a_stemmer = Some ''porter'',
       a_stopwords = Some ''terrier''\<rparr>"
  let ?b = "\<lparr>a_index_path = ''idx'', a_meta = [(''docno'', 20)], a_text_attrs = [''text''],
       a_pretokenised = True, a_fields = False, a_threads = 1, a_blocks = False,
       a_overwrite = False, a_type = CLASSIC, a_stemmer = Some ''porter'',
       a_stopwords = Some ''terrier''\<rparr>"
  from pretokenised_construction[of ?a True]
  have 1: "BaseIterDictIndexer_init True ?a = Inl PretokenisedFields" by simp
  from pretokenised_construction[of ?b True]
  obtain self where s: "BaseIterDictIndexer_init True ?b = Inr self" by auto
  with pretokenised_construction[of ?b True]
  have "stemmer self = None \<and> stopwords self = None \<and> text_attrs self = [''toks'']" by simp
  with 1 s show ?thesis by blast
qed

section \<open>In-memory indexing with several threads\<close>

lemma init_fields:
  "BaseIterDictIndexer_init version_ok a = Inr self \<Longrightarrow>
     path self = (if a_type a = MEMORY then None else Some (a_index_path a @ ''/data.properties''))
     \<and> itype self = a_type a \<and> threads self = a_threads a \<and> blocks self = a_blocks a
     \<and> index_called self = False \<and> cleanup_hooks self = []"
  by (auto simp: BaseIterDictIndexer_init_def Let_def TerrierIndexer_init_def split: if_splits)

text \<open>
  C6 as stated fails: the constructor never compares \<^verbatim>\<open>threads\<close> with the indexing
  type, so \<^verbatim>\<open>IterDictIndexer("idx", type=IndexingType.MEMORY, threads=2)\<close> is
  constructed without an error.
\<close>

theorem memory_threads_counterexample:
  "BaseIterDictIndexer_init True
      \<lparr>a_index_path = ''idx'', a_meta = [(''docno'', 20)], a_text_attrs = [''text''],
       a_pretokenised = False, a_fields = False, a_threads = 2, a_blocks = False,
       a_overwrite = False, a_type = MEMORY, a_stemmer = Some ''porter'',
       a_stopwords = Some ''terrier''\<rparr>
   = Inr \<lparr>path = None, index_dir = ''idx'', index_called = False, blocks = False,
          itype = MEMORY, stemmer = Some ''porter'', stopwords = Some ''terrier'',
          overwrite = False, threads = 2, text_attrs = [''text''], meta = [(''docno'', 20)],
          pretokenised = False, fields_flag = False, cleanup_hooks = []\<rparr>"
  by (simp add: BaseIterDictIndexer_init_def Let_def TerrierIndexer_init_def)

text \<open>
  C6, as amended. With \<^verbatim>\<open>IndexingType.MEMORY\<close> and more than one thread the
  construction succeeds (whenever it would with one thread), and it is the call of
  \<^verbatim>\<open>index\<close> that fails, before any record is read: in the fifo indexer with the
  assertion "IterDictIndexer does not support multiple threads for IndexingType.MEMORY"
  (after the blocks check of \<^verbatim>\<open>indexerAndMergerClasses\<close>), in the nofifo indexer with
  its assertion that \<^verbatim>\<open>threads == 1\<close>.
\<close>

theorem memory_threads_fails_at_index:
  assumes "a_type a = MEMORY" and "a_threads a > 1"
  shows "(version_ok \<and> \<not> a_pretokenised a \<longrightarrow> (\<exists>self. BaseIterDictIndexer_init version_ok a = Inr self))
       \<and> (\<forall>self. BaseIterDictIndexer_init version_ok a = Inr self \<longrightarrow>
            index_fifo str2int sel self w it None
              = (Inl (if a_blocks a then MemoryBlocks else ThreadsMemory), self, w)
          \<and> index_nofifo self w it None = (Inl ThreadsWindows, self, w))"
proof -
  have 1: "version_ok \<and> \<not> a_pretokenised a \<longrightarrow> (\<exists>self. BaseIterDictIndexer_init version_ok a = Inr self)"
    by (simp add: BaseIterDictIndexer_init_def Let_def)
  have 2: "index_fifo str2int sel self w it None
              = (Inl (if a_blocks a then MemoryBlocks else ThreadsMemory), self, w)
          \<and> index_nofifo self w it None = (Inl ThreadsWindows, self, w)"
    if "BaseIterDictIndexer_init version_ok a = Inr self" for self
  proof -
    from init_fields[OF that] assms
    have f: "path self = None" "itype self = MEMORY" "threads self > 1" "blocks self = a_blocks a"
      by auto
    have c: "checkIndexExists self w = None" using f by (simp add: checkIndexExists_def)
    have i: "indexerAndMergerClasses self
               = (if a_blocks a then Inl MemoryBlocks else Inr (BasicMemoryIndexer, None))"
      using f by (simp add: indexerAndMergerClasses_def)
    have a: "index_fifo str2int sel self w it None
              = (Inl (if a_blocks a then MemoryBlocks else ThreadsMemory), self, w)"
      using c i f(3) by (simp add: index_fifo_def)
    have b: "index_nofifo self w it None = (Inl ThreadsWindows, self, w)"
      using c f(3) by (simp add: index_nofifo_def)
    from a b show ?thesis by simp
  qed
  from 1 2 show ?thesis by blast
qed

theorem memory_threads_fails_at_index_witness:
  "index_fifo (\<lambda>s. None) (\<lambda>n. [0])
      \<lparr>path = None, index_dir = ''idx'', index_called = False, blocks = False,
          itype = MEMORY, stemmer = Some ''porter'', stopwords = Some ''terrier'',
          overwrite = False, threads = 2, text_attrs = [''text''], meta = [(''docno'', 20)],
          pretokenised = False, fields_flag = False, cleanup_hooks = []\<rparr>
      \<lparr>files = [], retrieval = True, hooks_run = []\<rparr>
      [VDict [(''docno'', VStr ''d1''), (''text'', VStr ''a b'')]] None
   = (Inl ThreadsMemory,
      \<lparr>path = None, index_dir = ''idx'', index_called = False, blocks = False,
          itype = MEMORY, stemmer = Some ''porter'', stopwords = Some ''terrier'',
          overwrite = False, threads = 2, text_attrs = [''text''], meta = [(''docno'', 20)],
          pretokenised = False, fields_flag = False, cleanup_hooks = []\<rparr>,
      \<lparr>files = [], retrieval = True, hooks_run = []\<rparr>)"
proof -
  let ?a = "\<lparr>a_index_path = ''idx'', a_meta = [(''docno'', 20)], a_text_attrs = [''text''],
       a_pretokenised = False, a_fields = False, a_threads = 2, a_blocks = False,
       a_overwrite = False, a_type = MEMORY, a_stemmer = Some ''porter'',
       a_stopwords = Some ''terrier''\<rparr>"
  let ?self = "\<lparr>path = None, index_dir = ''idx'', index_called = False, blocks = False,
          itype = MEMORY, stemmer = Some ''porter'', stopwords = Some ''terrier'',
          overwrite = False, threads = 2, text_attrs = [''text''], meta = [(''docno'', 20)],
          pretokenised = False, fields_flag = False, cleanup_hooks = []\<rparr>"
  have t: "a_type ?a = MEMORY" and n: "a_threads ?a > 1" by simp_all
  have c: "BaseIterDictIndexer_init True ?a = Inr ?self"
    by (simp add: BaseIterDictIndexer_init_def Let_def TerrierIndexer_init_def)
  from memory_threads_fails_at_index[OF t n, of True "\<lambda>s. None" "\<lambda>n. [0]"
      "\<lparr>files = [], retrieval = True, hooks_run = []\<rparr>"
      "[VDict [(''docno'', VStr ''d1''), (''text'', VStr ''a b'')]]"] c
  show ?thesis by simp
qed

section \<open>A second call of index\<close>

lemma index_nofifo_success:
  assumes "index_nofifo self w it fa = (Inr ref, self', w')"
  shows "self' = self\<lparr>index_called := True\<rparr>"
  using assms
  by (auto simp: index_nofifo_def Let_def
      split: if_splits option.splits sum.splits prod.splits)

text \<open>
  C5 as stated fails: \<^verbatim>\<open>checkIndexExists\<close> returns at once when \<^verbatim>\<open>self.path\<close> is
  \<^verbatim>\<open>None\<close>, which it is for \<^verbatim>\<open>IndexingType.MEMORY\<close>, so an in-memory indexer builds a
  second time although \<^verbatim>\<open>index_called\<close> is set.
\<close>

theorem second_build_counterexample:
  "index_nofifo
      \<lparr>path = None, index_dir = ''idx'', index_called = False, blocks = False,
          itype = MEMORY, stemmer = Some ''porter'', stopwords = Some ''terrier'',
          overwrite = False, threads = 1, text_attrs = [''text''], meta = [(''docno'', 20)],
          pretokenised = False, fields_flag = False, cleanup_hooks = []\<rparr>
      \<lparr>files = [], retrieval = True, hooks_run = []\<rparr>
      [VDict [(''docno'', VStr ''d1''), (''text'', VStr ''a b'')]] None
   = (Inr (MemoryRef [[[(''text'', VStr ''a b''), (''docno'', VStr ''d1'')]]]),
      \<lparr>path = None, index_dir = ''idx'', index_called = True, blocks = False,
          itype = MEMORY, stemmer = Some ''porter'', stopwords = Some ''terrier'',
          overwrite = False, threads = 1, text_attrs = [''text''], meta = [(''docno'', 20)],
          pretokenised = False, fields_flag = False, cleanup_hooks = []\<rparr>,
      \<lparr>files = [], retrieval = True, hooks_run = []\<rparr>)
   \<and> index_nofifo
      \<lparr>path = None, index_dir = ''idx'', index_called = True, blocks = False,
          itype = MEMORY, stemmer = Some ''porter'', stopwords = Some ''terrier'',
          overwrite = False, threads = 1, text_attrs = [''text''], meta = [(''docno'', 20)],
          pretokenised = False, fields_flag = False, cleanup_hooks = []\<rparr>
      \<lparr>files = [], retrieval = True, hooks_run = []\<rparr>
      [VDict [(''docno'', VStr ''d2''), (''text'', VStr ''c d'')]] None
   = (Inr (MemoryRef [[[(''text'', VStr ''c d''), (''docno'', VStr ''d2'')]]]),
      \<lparr>path = None, index_dir = ''idx'', index_called = True, blocks = False,
          itype = MEMORY, stemmer = Some ''porter'', stopwords = Some ''terrier'',
          overwrite = False, threads = 1, text_attrs = [''text''], meta = [(''docno'', 20)],
          pretokenised = False, fields_flag = False, cleanup_hooks = []\<rparr>,
      \<lparr>files = [], retrieval = True, hooks_run = []\<rparr>)"
  by (simp add: index_nofifo_def checkIndexExists_def indexerAndMergerClasses_def
      filter_iterable_def spy_def projected_def all_cols_def)

text \<open>
  C5, as amended. For an indexer with an on-disk target whose \<^verbatim>\<open>index\<close> records its
  completion in \<^verbatim>\<open>index_called\<close> (the nofifo \<^verbatim>\<open>index\<close>), every later call of
  \<^verbatim>\<open>index\<close> is refused by \<^verbatim>\<open>checkIndexExists\<close> before anything is built, leaving the
  object and the outside world as they were: with "Index already exists" when the index
  file exists and \<^verbatim>\<open>overwrite\<close> is not set, and with "Index method can be called only
  once" otherwise.
\<close>

theorem second_build_refused:
  assumes "index_nofifo self w it None = (Inr ref, self', w')" and "path self = Some p"
  shows "index_called self'
       \<and> (\<forall>w2 it2. index_nofifo self' w2 it2 None
            = (Inl (if p \<in> set (files w2) \<and> \<not> overwrite self then IndexAlreadyExists p
                    else IndexCalledOnce), self', w2))"
proof -
  have s: "self' = self\<lparr>index_called := True\<rparr>" using assms(1) by (rule index_nofifo_success)
  have "checkIndexExists self' w2
          = Some (if p \<in> set (files w2) \<and> \<not> overwrite self then IndexAlreadyExists p
                  else IndexCalledOnce)" for w2
    using s assms(2) by (simp add: checkIndexExists_def)
  then have "index_nofifo self' w2 it2 None
            = (Inl (if p \<in> set (files w2) \<and> \<not> overwrite self then IndexAlreadyExists p
                    else IndexCalledOnce), self', w2)" for w2 it2
    by (simp add: index_nofifo_def)
  with s show ?thesis by simp
qed

theorem second_build_refused_witness:
  "index_nofifo
      \<lparr>path = Some ''idx/data.properties'', index_dir = ''idx'', index_called = True, blocks = False,
          itype = CLASSIC, stemmer = Some ''porter'', stopwords = Some ''terrier'',
          overwrite = True, threads = 1, text_attrs = [''text''], meta = [(''docno'', 20)],
          pretokenised = False, fields_flag = False, cleanup_hooks = []\<rparr>
      \<lparr>files = [''idx/data.properties''], retrieval = True, hooks_run = []\<rparr>
      [VDict [(''docno'', VStr ''d2''), (''text'', VStr ''c d'')]] None
   = (Inl IndexCalledOnce,
      \<lparr>path = Some ''idx/data.properties'', index_dir = ''idx'', index_called = True, blocks = False,
          itype = CLASSIC, stemmer = Some ''porter'', stopwords = Some ''terrier'',
          overwrite = True, threads = 1, text_attrs = [''text''], meta = [(''docno'', 20)],
          pretokenised = False, fields_flag = False, cleanup_hooks = []\<rparr>,
      \<lparr>files = [''idx/data.properties''], retrieval = True, hooks_run = []\<rparr>)"
proof -
  let ?self = "\<lparr>path = Some ''idx/data.properties'', index_dir = ''idx'', index_called = False,
          blocks = False, itype = CLASSIC, stemmer = Some ''porter'', stopwords = Some ''terrier'',
          overwrite = True, threads = 1, text_attrs = [''text''], meta = [(''docno'', 20)],
          pretokenised = False, fields_flag = False, cleanup_hooks = []\<rparr>"
  let ?self' = "\<lparr>path = Some ''idx/data.properties'', index_dir = ''idx'', index_called = True,
          blocks = False, itype = CLASSIC, stemmer = Some ''porter'', stopwords = Some ''terrier'',
          overwrite = True, threads = 1, text_attrs = [''text''], meta = [(''docno'', 20)],
          pretokenised = False, fields_flag = False, cleanup_hooks = []\<rparr>"
  let ?w = "\<lparr>files = [], retrieval = True, hooks_run = []\<rparr>"
  have first: "index_nofifo ?self ?w [VDict [(''docno'', VStr ''d1''), (''text'', VStr ''a b'')]] None
      = (Inr (DiskRef ''idx/data.properties'' [[[(''text'', VStr ''a b''), (''docno'', VStr ''d1'')]]]),
         ?self', ?w)"
    by (simp add: index_nofifo_def checkIndexExists_def indexerAndMergerClasses_def
        filter_iterable_def spy_def projected_def all_cols_def)
  have p: "path ?self = Some ''idx/data.properties''" by simp
  from second_build_refused[OF first p]
  have "index_nofifo ?self' \<lparr>files = [''idx/data.properties''], retrieval = True, hooks_run = []\<rparr>
          [VDict [(''docno'', VStr ''d2''), (''text'', VStr ''c d'')]] None
        = (Inl (if ''idx/data.properties'' \<in> set (files \<lparr>files = [''idx/data.properties''], retrieval = True, hooks_run = []\<rparr>)
                   \<and> \<not> overwrite ?self then IndexAlreadyExists ''idx/data.properties''
                else IndexCalledOnce), ?self',
           \<lparr>files = [''idx/data.properties''], retrieval = True, hooks_run = []\<rparr>)"
    by blast
  then show ?thesis by simp
qed

section \<open>Cleanup hooks\<close>

text \<open>
  C4. With two cleanup hooks of which the first raises, the nofifo \<^verbatim>\<open>index\<close> runs the
  first hook only and lets its exception reach the caller, but the loading profile stays
  "not for retrieval": the call that restores it follows the loop and is not reached.
  The fifo \<^verbatim>\<open>index\<close>, on the same input, restores the profile before it runs the hooks
  and so leaves it "for retrieval".
\<close>

theorem nofifo_hook_failure_leaves_profile:
  "index_nofifo
      \<lparr>path = Some ''idx/data.properties'', index_dir = ''idx'', index_called = False, blocks = False,
          itype = CLASSIC, stemmer = Some ''porter'', stopwords = Some ''terrier'',
          overwrite = False, threads = 1, text_attrs = [''text''], meta = [(''docno'', 20)],
          pretokenised = False, fields_flag = False, cleanup_hooks = [Hook 1 True, Hook 2 False]\<rparr>
      \<lparr>files = [], retrieval = True, hooks_run = []\<rparr>
      [VDict [(''docno'', VStr ''d1''), (''text'', VStr ''a b'')]] None
   = (Inl (HookError 1),
      \<lparr>path = Some ''idx/data.properties'', index_dir = ''idx'', index_called = True, blocks = False,
          itype = CLASSIC, stemmer = Some ''porter'', stopwords = Some ''terrier'',
          overwrite = False, threads = 1, text_attrs = [''text''], meta = [(''docno'', 20)],
          pretokenised = False, fields_flag = False, cleanup_hooks = [Hook 1 True, Hook 2 False]\<rparr>,
      \<lparr>files = [], retrieval = False, hooks_run = [1]\<rparr>)
   \<and> index_fifo (\<lambda>s. None) (\<lambda>n. [0])
      \<lparr>path = Some ''idx/data.properties'', index_dir = ''idx'', index_called = False, blocks = False,
          itype = CLASSIC, stemmer = Some ''porter'', stopwords = Some ''terrier'',
          overwrite = False, threads = 1, text_attrs = [''text''], meta = [(''docno'', 20)],
          pretokenised = False, fields_flag = False, cleanup_hooks = [Hook 1 True, Hook 2 False]\<rparr>
      \<lparr>files = [], retrieval = True, hooks_run = []\<rparr>
      [VDict [(''docno'', VStr ''d1''), (''text'', VStr ''a b'')]] None
   = (Inl (HookError 1),
      \<lparr>path = Some ''idx/data.properties'', index_dir = ''idx'', index_called = False, blocks = False,
          itype = CLASSIC, stemmer = Some ''porter'', stopwords = Some ''terrier'',
          overwrite = False, threads = 1, text_attrs = [''text''], meta = [(''docno'', 20)],
          pretokenised = False, fields_flag = False, cleanup_hooks = [Hook 1 True, Hook 2 False]\<rparr>,
      \<lparr>files = [], retrieval = True, hooks_run = [1]\<rparr>)"
  by (simp add: index_nofifo_def index_fifo_def checkIndexExists_def indexerAndMergerClasses_def
      filter_iterable_def spy_def projected_def all_cols_def write_fifos_def)

section \<open>The distributor: lemmas\<close>

lemma mset_concat_update:
  "i < length xs \<Longrightarrow> mset (concat (xs[i := xs ! i @ [l]])) = add_mset l (mset (concat xs))"
proof (induction xs arbitrary: i)
  case Nil
  then show ?case by simp
next
  case (Cons x xs)
  show ?case
  proof (cases i)
    case 0
    then show ?thesis by simp
  next
    case (Suc j)
    with Cons.prems have "j < length xs" by simp
    from Cons.IH[OF this] Suc show ?thesis by simp
  qed
qed

lemma set_concat_update:
  "set (concat (xs[i := xs ! i @ [l]])) \<subseteq> insert l (set (concat xs))"
proof (induction xs arbitrary: i)
  case Nil
  then show ?case by simp
next
  case (Cons x xs)
  show ?case
  proof (cases i)
    case 0
    then show ?thesis by auto
  next
    case (Suc j)
    with Cons.IH[of j] show ?thesis by auto
  qed
qed

lemma chans_refill: "chans (refill sel st) = chans st"
  by (simp add: refill_def)

lemma ready_after_refill:
  assumes "select_ok sel (length (chans st))" and "1 \<le> length (chans st)"
    and "\<forall>r. ready st = Some r \<longrightarrow> (\<forall>i \<in> set r. i < length (chans st))"
  shows "\<exists>i r. ready (if not_ready (ready st) then refill sel st else st) = Some (i # r)
           \<and> i < length (chans st) \<and> (\<forall>j \<in> set r. j < length (chans st))"
proof (cases "not_ready (ready st)")
  case True
  show ?thesis
  proof (cases "length (chans st) > 1")
    case many: True
    from assms(1) have ne: "sel (selects st) \<noteq> []"
      and ok: "\<forall>i \<in> set (sel (selects st)). i < length (chans st)"
      by (simp_all add: select_ok_def)
    from ne obtain i r where ir: "sel (selects st) = i # r" by (cases "sel (selects st)") auto
    with ok have "i < length (chans st)" "\<forall>j \<in> set r. j < length (chans st)" by auto
    with True many ir show ?thesis by (simp add: refill_def)
  next
    case False
    with assms(2) have one: "length (chans st) = 1" by simp
    then have "[0..<length (chans st)] = [0]" by simp
    with True one show ?thesis by (simp add: refill_def)
  qed
next
  case False
  then obtain i r where ir: "ready st = Some (i # r)"
    by (cases "ready st"; cases "the (ready st)") auto
  with assms(3) have "i < length (chans st)" "\<forall>j \<in> set r. j < length (chans st)" by auto
  with False ir show ?thesis by simp
qed

lemma write_loop_prefix:
  assumes "select_ok sel (length (chans st))" and "1 \<le> length (chans st)"
    and "\<forall>r. ready st = Some r \<longrightarrow> (\<forall>i \<in> set r. i < length (chans st))"
    and "map (cast_toks str2int) docs = map Inr lines"
  shows "\<exists>st'. write_loop str2int sel st (map Inr docs @ tail) = write_loop str2int sel st' tail
           \<and> length (chans st') = length (chans st)
           \<and> (\<forall>r. ready st' = Some r \<longrightarrow> (\<forall>i \<in> set r. i < length (chans st')))
           \<and> mset (concat (chans st')) = mset (concat (chans st)) + mset lines"
  using assms
proof (induction docs arbitrary: st lines)
  case Nil
  from Nil.prems(4) have "lines = []" by simp
  with Nil.prems(3) show ?case by (intro exI[of _ st]) simp
next
  case (Cons doc docs)
  from Cons.prems(4) obtain line lines' where l: "lines = line # lines'"
    and c: "cast_toks str2int doc = Inr line"
    and cs: "map (cast_toks str2int) docs = map Inr lines'"
    by (cases lines) auto
  let ?st1 = "if not_ready (ready st) then refill sel st else st"
  from ready_after_refill[OF Cons.prems(1-3)] obtain i r where
    r: "ready ?st1 = Some (i # r)" and i: "i < length (chans st)"
    and rr: "\<forall>j \<in> set r. j < length (chans st)" by blast
  have ch: "chans ?st1 = chans st" by (simp add: chans_refill)
  let ?st2 = "?st1\<lparr>ready := Some r, chans := (chans ?st1)[i := chans ?st1 ! i @ [line]]\<rparr>"
  have len2: "length (chans ?st2) = length (chans st)" using ch by simp
  have step: "write_loop str2int sel st (map Inr (doc # docs) @ tail)
                = write_loop str2int sel ?st2 (map Inr docs @ tail)"
    using r c by (simp add: Let_def)
  have p1: "select_ok sel (length (chans ?st2))" using Cons.prems(1) len2 by simp
  have p2: "1 \<le> length (chans ?st2)" using Cons.prems(2) len2 by simp
  have p3: "\<forall>r'. ready ?st2 = Some r' \<longrightarrow> (\<forall>i \<in> set r'. i < length (chans ?st2))"
    using rr len2 by simp
  from Cons.IH[OF p1 p2 p3 cs] obtain st' where
    w: "write_loop str2int sel ?st2 (map Inr docs @ tail) = write_loop str2int sel st' tail"
    and le: "length (chans st') = length (chans ?st2)"
    and rv: "\<forall>r. ready st' = Some r \<longrightarrow> (\<forall>i \<in> set r. i < length (chans st'))"
    and ms: "mset (concat (chans st')) = mset (concat (chans ?st2)) + mset lines'"
    by blast
  have "mset (concat (chans ?st2)) = add_mset line (mset (concat (chans st)))"
    using mset_concat_update[OF i] ch by simp
  with ms l have ms': "mset (concat (chans st')) = mset (concat (chans st)) + mset lines" by simp
  have le': "length (chans st') = length (chans st)" using le len2 by simp
  have w': "write_loop str2int sel st (map Inr (doc # docs) @ tail) = write_loop str2int sel st' tail"
    using step w by (rule trans)
  show ?case by (rule exI[of _ st'], intro conjI, rule w', rule le', rule rv, rule ms')
qed

lemma write_loop_prefix_single:
  assumes "chans st = [c]" and "not_ready (ready st)"
    and "map (cast_toks str2int) docs = map Inr lines"
  shows "\<exists>st'. write_loop str2int sel st (map Inr docs @ tail) = write_loop str2int sel st' tail
           \<and> chans st' = [c @ lines] \<and> not_ready (ready st')"
  using assms
proof (induction docs arbitrary: st lines c)
  case Nil
  from Nil.prems(3) have "lines = []" by simp
  with Nil.prems(1,2) show ?case by (intro exI[of _ st]) simp
next
  case (Cons doc docs)
  from Cons.prems(3) obtain line lines' where l: "lines = line # lines'"
    and cd: "cast_toks str2int doc = Inr line"
    and cs: "map (cast_toks str2int) docs = map Inr lines'"
    by (cases lines) auto
  let ?st2 = "(refill sel st)\<lparr>ready := Some [], chans := [c @ [line]]\<rparr>"
  have r: "refill sel st = st\<lparr>ready := Some [0]\<rparr>"
    using Cons.prems(1) by (simp add: refill_def)
  have step: "write_loop str2int sel st (map Inr (doc # docs) @ tail)
                = write_loop str2int sel ?st2 (map Inr docs @ tail)"
    using Cons.prems(1,2) cd r by (simp add: Let_def)
  have a: "chans ?st2 = [c @ [line]]" by simp
  have b: "not_ready (ready ?st2)" by simp
  from Cons.IH[OF a b cs] obtain st' where
    w: "write_loop str2int sel ?st2 (map Inr docs @ tail) = write_loop str2int sel st' tail"
    and ch: "chans st' = [(c @ [line]) @ lines']" and nr: "not_ready (ready st')"
    by blast
  have w': "write_loop str2int sel st (map Inr (doc # docs) @ tail) = write_loop str2int sel st' tail"
    using step w by (rule trans)
  have ch': "chans st' = [c @ lines]" using ch l by simp
  show ?case by (rule exI[of _ st'], intro conjI, rule w', rule ch', rule nr)
qed

lemma write_loop_cast_fails:
  assumes "select_ok sel (length (chans st))" and "1 \<le> length (chans st)"
    and "\<forall>r. ready st = Some r \<longrightarrow> (\<forall>i \<in> set r. i < length (chans st))"
    and "cast_toks str2int doc = Inl e"
  shows "\<exists>st'. write_loop str2int sel st (Inr doc # rest) = (st', Some e) \<and> chans st' = chans st"
proof -
  let ?st1 = "if not_ready (ready st) then refill sel st else st"
  from ready_after_refill[OF assms(1-3)] obtain i r where
    r: "ready ?st1 = Some (i # r)" by blast
  have ch: "chans ?st1 = chans st" by (simp add: chans_refill)
  have "write_loop str2int sel st (Inr doc # rest) = (?st1\<lparr>ready := Some r\<rparr>, Some e)"
    using r assms(4) by (simp add: Let_def)
  moreover have "chans (?st1\<lparr>ready := Some r\<rparr>) = chans st" using ch by simp
  ultimately show ?thesis by blast
qed

lemma setitem_keys: "map fst (setitem doc key v) = map fst doc"
  by (induction doc) (auto simp: setitem_def)

lemma setitem_other: "k \<noteq> key \<Longrightarrow> map_of (setitem doc key v) k = map_of doc k"
  by (induction doc) (auto simp: setitem_def)

lemma cast_toks_keeps:
  assumes "cast_toks str2int doc = Inr line"
  shows "map fst line = map fst doc \<and> (\<forall>k. k \<noteq> ''toks'' \<longrightarrow> map_of line k = map_of doc k)"
proof (cases "map_of doc ''toks''")
  case None
  with assms show ?thesis by (simp add: cast_toks_def)
next
  case (Some old)
  show ?thesis
  proof (cases old)
    case (VDict t0)
    with Some assms obtain kvs where "line = setitem doc ''toks'' (VDict kvs)"
      by (auto simp: cast_toks_def split: sum.splits)
    then show ?thesis by (simp add: setitem_keys setitem_other)
  qed (use Some assms in \<open>simp_all add: cast_toks_def\<close>)
qed

lemma cast_toks_all_keep:
  "map (cast_toks str2int) docs = map Inr lines \<Longrightarrow>
     list_all2 (\<lambda>doc line. map fst line = map fst doc
                  \<and> (\<forall>k. k \<noteq> ''toks'' \<longrightarrow> map_of line k = map_of doc k)) docs lines"
proof (induction docs arbitrary: lines)
  case Nil
  then show ?case by simp
next
  case (Cons doc docs)
  then obtain line lines' where l: "lines = line # lines'"
    and c: "cast_toks str2int doc = Inr line"
    and cs: "map (cast_toks str2int) docs = map Inr lines'"
    by (cases lines) auto
  from cast_toks_keeps[OF c] Cons.IH[OF cs] l show ?case by simp
qed

lemma not_ready_valid: "not_ready (ready st) \<Longrightarrow> \<forall>r. ready st = Some r \<longrightarrow> (\<forall>i \<in> set r. i < k)"
  by (cases "ready st") auto

lemma write_fifos_prefix:
  assumes n: "1 \<le> n" and sel: "select_ok sel n"
    and cast: "map (cast_toks str2int) docs = map Inr lines"
  shows "\<exists>st'. write_fifos str2int sel n (map Inr docs @ tail) = write_loop str2int sel st' tail
           \<and> length (chans st') = n
           \<and> (\<forall>r. ready st' = Some r \<longrightarrow> (\<forall>i \<in> set r. i < length (chans st')))
           \<and> mset (concat (chans st')) = mset lines
           \<and> (n = 1 \<longrightarrow> chans st' = [lines])"
proof -
  let ?st0 = "\<lparr>chans = replicate n [], ready = None, selects = 0\<rparr>"
  have e: "concat (replicate n ([]::pydict list)) = []" by (induction n) simp_all
  show ?thesis
  proof (cases "n = 1")
    case True
    have a: "chans ?st0 = [[]]" using True by simp
    have b: "not_ready (ready ?st0)" by simp
    from write_loop_prefix_single[OF a b cast, of sel tail] obtain st' where
      w: "write_loop str2int sel ?st0 (map Inr docs @ tail) = write_loop str2int sel st' tail"
      and ch: "chans st' = [[] @ lines]" and nr: "not_ready (ready st')" by blast
    have w': "write_fifos str2int sel n (map Inr docs @ tail) = write_loop str2int sel st' tail"
      using w by (simp add: write_fifos_def)
    have l: "length (chans st') = n" using ch True by simp
    have v: "\<forall>r. ready st' = Some r \<longrightarrow> (\<forall>i \<in> set r. i < length (chans st'))"
      using nr by (rule not_ready_valid)
    have ms: "mset (concat (chans st')) = mset lines" using ch by simp
    have one: "n = 1 \<longrightarrow> chans st' = [lines]" using ch by simp
    show ?thesis by (rule exI[of _ st'], intro conjI, rule w', rule l, rule v, rule ms, rule one)
  next
    case False
    have p1: "select_ok sel (length (chans ?st0))" using sel by simp
    have p2: "1 \<le> length (chans ?st0)" using n by simp
    have p3: "\<forall>r. ready ?st0 = Some r \<longrightarrow> (\<forall>i \<in> set r. i < length (chans ?st0))" by simp
    from write_loop_prefix[OF p1 p2 p3 cast, of tail] obtain st' where
      w: "write_loop str2int sel ?st0 (map Inr docs @ tail) = write_loop str2int sel st' tail"
      and le: "length (chans st') = length (chans ?st0)"
      and v: "\<forall>r. ready st' = Some r \<longrightarrow> (\<forall>i \<in> set r. i < length (chans st'))"
      and ms: "mset (concat (chans st')) = mset (concat (chans ?st0)) + mset lines"
      by blast
    have w': "write_fifos str2int sel n (map Inr docs @ tail) = write_loop str2int sel st' tail"
      using w by (simp add: write_fifos_def)
    have l: "length (chans st') = n" using le by simp
    have ms': "mset (concat (chans st')) = mset lines" using ms e by simp
    have one: "n = 1 \<longrightarrow> chans st' = [lines]" using False by simp
    show ?thesis by (rule exI[of _ st'], intro conjI, rule w', rule l, rule v, rule ms', rule one)
  qed
qed

section \<open>The distributor writes every record once\<close>

text \<open>
  C1 as stated fails: with one fifo and the stream
  \<^verbatim>\<open>[{'docno': 'd1'}, {'docno': 'd2', 'toks': {'a': 'x'}}, {'docno': 'd3'}]\<close>,
  \<^verbatim>\<open>int('x')\<close> raises in \<^verbatim>\<open>_write_fifos\<close> at the second record: the first record
  has been written, the second and the third are written to no fifo.
\<close>

theorem distributor_counterexample:
  "write_fifos (\<lambda>s. None) (\<lambda>c. [0]) 1
      (map Inr [[(''docno'', VStr ''d1'')],
                [(''docno'', VStr ''d2''), (''toks'', VDict [(''a'', VStr ''x'')])],
                [(''docno'', VStr ''d3'')]])
   = (\<lparr>chans = [[[(''docno'', VStr ''d1'')]]], ready = Some [], selects = 0\<rparr>,
      Some (IntValueError ''x''))"
  by (simp add: write_fifos_def cast_toks_def refill_def)

text \<open>
  C1, as amended. Take any number \<open>n \<ge> 1\<close> of fifos and any behaviour of \<^verbatim>\<open>select\<close>
  that returns a non-empty list of the fifos. For every stream of projected records whose
  \<^verbatim>\<open>toks\<close> entries (where present) are cast without an exception, \<^verbatim>\<open>_write_fifos\<close>
  ends without an exception and the lines written to the \<open>n\<close> fifos, taken together, are
  as a multiset exactly the lines of the input records: each record is written to one
  fifo, once; with one fifo the lines in it are those of the input in the input's order.
  When the cast of a record raises, \<^verbatim>\<open>_write_fifos\<close> ends with that exception, and the
  same holds of the records before it: each of them has been written to one fifo, once,
  and neither the record whose cast raised nor any later record has been written. A line
  has the keys of its record, in the same order, and the record's value under every key
  other than \<^verbatim>\<open>toks\<close>.
\<close>

theorem distributor_exactly_once:
  assumes "1 \<le> n" and "select_ok sel n" and "map (cast_toks str2int) docs = map Inr lines"
  shows "(\<exists>st. write_fifos str2int sel n (map Inr docs) = (st, None)
            \<and> length (chans st) = n
            \<and> mset (concat (chans st)) = mset lines
            \<and> (n = 1 \<longrightarrow> chans st = [lines]))
       \<and> (\<forall>doc e rest. cast_toks str2int doc = Inl e \<longrightarrow>
            (\<exists>st. write_fifos str2int sel n (map Inr docs @ Inr doc # rest) = (st, Some e)
               \<and> length (chans st) = n
               \<and> mset (concat (chans st)) = mset lines
               \<and> (n = 1 \<longrightarrow> chans st = [lines])))
       \<and> list_all2 (\<lambda>doc line. map fst line = map fst doc
                       \<and> (\<forall>k. k \<noteq> ''toks'' \<longrightarrow> map_of line k = map_of doc k)) docs lines"
proof (intro conjI allI impI)
  from write_fifos_prefix[OF assms, of "[]"] obtain st where
    w: "write_fifos str2int sel n (map Inr docs @ []) = write_loop str2int sel st []"
    and l: "length (chans st) = n"
    and ms: "mset (concat (chans st)) = mset lines"
    and one: "n = 1 \<longrightarrow> chans st = [lines]"
    by blast
  have w': "write_fifos str2int sel n (map Inr docs) = (st, None)" using w by simp
  show "\<exists>st. write_fifos str2int sel n (map Inr docs) = (st, None)
            \<and> length (chans st) = n
            \<and> mset (concat (chans st)) = mset lines
            \<and> (n = 1 \<longrightarrow> chans st = [lines])"
    by (rule exI[of _ st], intro conjI, rule w', rule l, rule ms, rule one)
next
  fix doc e rest
  assume c: "cast_toks str2int doc = Inl e"
  from write_fifos_prefix[OF assms, of "Inr doc # rest"] obtain st' where
    w: "write_fifos str2int sel n (map Inr docs @ Inr doc # rest)
          = write_loop str2int sel st' (Inr doc # rest)"
    and l: "length (chans st') = n"
    and v: "\<forall>r. ready st' = Some r \<longrightarrow> (\<forall>i \<in> set r. i < length (chans st'))"
    and ms: "mset (concat (chans st')) = mset lines"
    and one: "n = 1 \<longrightarrow> chans st' = [lines]"
    by blast
  have p1: "select_ok sel (length (chans st'))" using assms(2) l by simp
  have p2: "1 \<le> length (chans st')" using assms(1) l by simp
  from write_loop_cast_fails[OF p1 p2 v c, of rest] obtain st where
    f: "write_loop str2int sel st' (Inr doc # rest) = (st, Some e)" and ch: "chans st = chans st'"
    by blast
  have w': "write_fifos str2int sel n (map Inr docs @ Inr doc # rest) = (st, Some e)"
    using w f by (rule trans)
  have l': "length (chans st) = n" using l ch by simp
  have ms': "mset (concat (chans st)) = mset lines" using ms ch by simp
  have one': "n = 1 \<longrightarrow> chans st = [lines]" using one ch by simp
  show "\<exists>st. write_fifos str2int sel n (map Inr docs @ Inr doc # rest) = (st, Some e)
               \<and> length (chans st) = n
               \<and> mset (concat (chans st)) = mset lines
               \<and> (n = 1 \<longrightarrow> chans st = [lines])"
    by (rule exI[of _ st], intro conjI, rule w', rule l', rule ms', rule one')
next
  show "list_all2 (\<lambda>doc line. map fst line = map fst doc
                       \<and> (\<forall>k. k \<noteq> ''toks'' \<longrightarrow> map_of line k = map_of doc k)) docs lines"
    using assms(3) by (rule cast_toks_all_keep)
qed

theorem distributor_exactly_once_witness:
  "(\<exists>st. write_fifos (\<lambda>s. None) (\<lambda>c. [1, 0]) 2
          (map Inr [[(''docno'', VStr ''d1'')], [(''docno'', VStr ''d2'')], [(''docno'', VStr ''d3'')]])
        = (st, None)
      \<and> length (chans st) = 2
      \<and> mset (concat (chans st))
          = mset [[(''docno'', VStr ''d1'')], [(''docno'', VStr ''d2'')], [(''docno'', VStr ''d3'')]])
   \<and> (\<exists>st. write_fifos (\<lambda>s. None) (\<lambda>c. [1, 0]) 2
          (map Inr [[(''docno'', VStr ''d1'')], [(''docno'', VStr ''d2'')], [(''docno'', VStr ''d3'')]]
           @ Inr [(''docno'', VStr ''d4''), (''toks'', VDict [(''a'', VStr ''x'')])] # [])
        = (st, Some (IntValueError ''x''))
      \<and> length (chans st) = 2
      \<and> mset (concat (chans st))
          = mset [[(''docno'', VStr ''d1'')], [(''docno'', VStr ''d2'')], [(''docno'', VStr ''d3'')]])"
proof -
  let ?docs = "[[(''docno'', VStr ''d1'')], [(''docno'', VStr ''d2'')], [(''docno'', VStr ''d3'')]]"
  have n: "(1::nat) \<le> 2" by simp
  have s: "select_ok (\<lambda>c. [1, 0]) 2" by (simp add: select_ok_def)
  have c: "map (cast_toks (\<lambda>s. None)) ?docs = map Inr ?docs"
    by (simp add: cast_toks_def)
  have f: "cast_toks (\<lambda>s. None) [(''docno'', VStr ''d4''), (''toks'', VDict [(''a'', VStr ''x'')])]
             = Inl (IntValueError ''x'')"
    by (simp add: cast_toks_def)
  note t = distributor_exactly_once[OF n s c]
  from t[THEN conjunct1] obtain st where
    a: "write_fifos (\<lambda>s. None) (\<lambda>c. [1, 0]) 2 (map Inr ?docs) = (st, None)"
       "length (chans st) = 2" "mset (concat (chans st)) = mset ?docs"
    by (elim exE conjE)
  from t[THEN conjunct2, THEN conjunct1, THEN spec, THEN spec, THEN spec, THEN mp, OF f, of "[]"]
  obtain st' where
    b: "write_fifos (\<lambda>s. None) (\<lambda>c. [1, 0]) 2
          (map Inr ?docs @ Inr [(''docno'', VStr ''d4''), (''toks'', VDict [(''a'', VStr ''x'')])] # [])
        = (st', Some (IntValueError ''x''))"
       "length (chans st') = 2" "mset (concat (chans st')) = mset ?docs"
    by (elim exE conjE)
  show ?thesis
    by (intro conjI, (rule exI[of _ st], intro conjI, rule a(1), rule a(2), rule a(3)),
        (rule exI[of _ st'], intro conjI, rule b(1), rule b(2), rule b(3)))
qed

section \<open>Token frequencies are cast to integers\<close>

lemma cast_items_ints:
  "cast_items str2int t = Inr kvs \<Longrightarrow>
     list_all2 (\<lambda>(k, v) (k', v'). k' = k \<and> (\<exists>i. py_int str2int v = Inr i \<and> v' = VInt i)) t kvs"
proof (induction t arbitrary: kvs)
  case Nil
  then show ?case by simp
next
  case (Cons kv t)
  obtain k v where kv: "kv = (k, v)" by (cases kv)
  from Cons.prems kv obtain i r where i: "py_int str2int v = Inr i"
    and r: "cast_items str2int t = Inr r" and kvs: "kvs = (k, VInt i) # r"
    by (auto split: sum.splits)
  from Cons.IH[OF r] kv i kvs show ?case by simp
qed

lemma map_of_setitem:
  "map_of doc key = Some old \<Longrightarrow> map_of (setitem doc key v) key = Some v"
proof (induction doc)
  case Nil
  then show ?case by simp
next
  case (Cons kv doc)
  obtain k w where kv: "kv = (k, w)" by (cases kv)
  show ?case
  proof (cases "k = key")
    case True
    with kv show ?thesis by (simp add: setitem_def)
  next
    case False
    with Cons.prems kv have "map_of doc key = Some old" by simp
    from Cons.IH[OF this] False kv show ?thesis by (simp add: setitem_def)
  qed
qed

lemma cast_toks_ints:
  assumes "cast_toks str2int doc = Inr line" and "map_of line ''toks'' = Some t"
  shows "\<exists>t0 kvs. map_of doc ''toks'' = Some (VDict t0) \<and> t = VDict kvs
           \<and> cast_items str2int t0 = Inr kvs"
proof (cases "map_of doc ''toks''")
  case None
  with assms show ?thesis by (simp add: cast_toks_def)
next
  case (Some old)
  show ?thesis
  proof (cases old)
    case (VDict t0)
    with Some assms(1) obtain kvs where k: "cast_items str2int t0 = Inr kvs"
      and l: "line = setitem doc ''toks'' (VDict kvs)"
      by (auto simp: cast_toks_def split: sum.splits)
    from map_of_setitem[OF Some] l assms(2) have "t = VDict kvs" by simp
    with Some VDict k show ?thesis by simp
  qed (use Some assms(1) in \<open>simp_all add: cast_toks_def\<close>)
qed

lemma write_loop_lines:
  "line \<in> set (concat (chans (fst (write_loop str2int sel st it)))) \<Longrightarrow>
     line \<in> set (concat (chans st)) \<or> (\<exists>doc. Inr doc \<in> set it \<and> cast_toks str2int doc = Inr line)"
proof (induction it arbitrary: st)
  case Nil
  then show ?case by simp
next
  case (Cons x it)
  show ?case
  proof (cases x)
    case (Inl e)
    with Cons.prems show ?thesis by simp
  next
    case (Inr doc)
    let ?st1 = "if not_ready (ready st) then refill sel st else st"
    have ch: "chans ?st1 = chans st" by (simp add: chans_refill)
    show ?thesis
    proof (cases "the (ready ?st1)")
      case Nil
      with Cons.prems Inr ch show ?thesis by (simp add: Let_def)
    next
      case (Cons i r)
      show ?thesis
      proof (cases "cast_toks str2int doc")
        case (Inl e)
        with Cons.prems Inr Cons ch show ?thesis by (simp add: Let_def)
      next
        case c: (Inr l)
        let ?st2 = "?st1\<lparr>ready := Some r, chans := (chans ?st1)[i := chans ?st1 ! i @ [l]]\<rparr>"
        from Cons.prems Inr Cons c
        have "line \<in> set (concat (chans (fst (write_loop str2int sel ?st2 it))))"
          by (simp add: Let_def)
        from Cons.IH[OF this]
        have "line \<in> set (concat (chans ?st2))
            \<or> (\<exists>doc. Inr doc \<in> set it \<and> cast_toks str2int doc = Inr line)" .
        moreover have "set (concat (chans ?st2)) \<subseteq> insert l (set (concat (chans st)))"
          using set_concat_update[of "chans st" i l] ch by simp
        ultimately show ?thesis using c Inr by auto
      qed
    qed
  qed
qed

text \<open>
  C9. Every line that \<^verbatim>\<open>_write_fifos\<close> has written to a fifo, however the run ends,
  comes from an input record; if the line has a \<^verbatim>\<open>toks\<close> entry, that entry is a
  dictionary with the keys of the record's \<^verbatim>\<open>toks\<close> dictionary in which every value is
  the integer that \<^verbatim>\<open>int()\<close> gives for the record's value.
\<close>

theorem toks_values_are_integers:
  "\<forall>line \<in> set (concat (chans (fst (write_fifos str2int sel n it)))).
     \<forall>t. map_of line ''toks'' = Some t \<longrightarrow>
       (\<exists>doc t0 kvs. Inr doc \<in> set it \<and> map_of doc ''toks'' = Some (VDict t0) \<and> t = VDict kvs
          \<and> list_all2 (\<lambda>(k, v) (k', v'). k' = k \<and> (\<exists>i. py_int str2int v = Inr i \<and> v' = VInt i))
               t0 kvs)"
proof (intro ballI allI impI)
  fix line t
  assume l: "line \<in> set (concat (chans (fst (write_fifos str2int sel n it))))"
    and t: "map_of line ''toks'' = Some t"
  have e: "concat (replicate n ([]::pydict list)) = []" by (induction n) simp_all
  from l have "line \<in> set (concat (chans (fst (write_loop str2int sel
                  \<lparr>chans = replicate n [], ready = None, selects = 0\<rparr> it))))"
    by (simp add: write_fifos_def)
  from write_loop_lines[OF this] e obtain doc where d: "Inr doc \<in> set it"
    and c: "cast_toks str2int doc = Inr line" by auto
  from cast_toks_ints[OF c t] obtain t0 kvs where
    "map_of doc ''toks'' = Some (VDict t0)" "t = VDict kvs" "cast_items str2int t0 = Inr kvs"
    by blast
  with d cast_items_ints show
    "\<exists>doc t0 kvs. Inr doc \<in> set it \<and> map_of doc ''toks'' = Some (VDict t0) \<and> t = VDict kvs
          \<and> list_all2 (\<lambda>(k, v) (k', v'). k' = k \<and> (\<exists>i. py_int str2int v = Inr i \<and> v' = VInt i))
               t0 kvs"
    by blast
qed

theorem toks_values_are_integers_witness:
  "chans (fst (write_fifos (\<lambda>s. if s = ''2'' then Some 2 else None) (\<lambda>c. [0]) 1
      [Inr [(''docno'', VStr ''d1''), (''toks'', VDict [(''a'', VInt 1), (''b'', VStr ''2'')])]]))
     = [[[(''docno'', VStr ''d1''), (''toks'', VDict [(''a'', VInt 1), (''b'', VInt 2)])]]]
   \<and> (\<exists>doc t0 kvs.
         (Inr doc :: error + pydict) \<in> set [Inr [(''docno'', VStr ''d1''), (''toks'', VDict [(''a'', VInt 1), (''b'', VStr ''2'')])]]
       \<and> map_of doc ''toks'' = Some (VDict t0)
       \<and> VDict [(''a'', VInt 1), (''b'', VInt 2)] = VDict kvs
       \<and> list_all2 (\<lambda>(k, v) (k', v'). k' = k
            \<and> (\<exists>i. py_int (\<lambda>s. if s = ''2'' then Some 2 else None) v = Inr i \<and> v' = VInt i)) t0 kvs)"
proof -
  let ?s2i = "\<lambda>s. if s = ''2'' then Some (2::int) else None"
  let ?it = "[Inr [(''docno'', VStr ''d1''), (''toks'', VDict [(''a'', VInt 1), (''b'', VStr ''2'')])]]"
  let ?line = "[(''docno'', VStr ''d1''), (''toks'', VDict [(''a'', VInt 1), (''b'', VInt 2)])]"
  have w: "chans (fst (write_fifos ?s2i (\<lambda>c. [0]) 1 ?it)) = [[?line]]"
    by (simp add: write_fifos_def cast_toks_def setitem_def refill_def)
  then have m: "?line \<in> set (concat (chans (fst (write_fifos ?s2i (\<lambda>c. [0]) 1 ?it))))" by simp
  have t: "map_of ?line ''toks'' = Some (VDict [(''a'', VInt 1), (''b'', VInt 2)])" by simp
  note ex = toks_values_are_integers[rule_format, OF m t]
  from w ex show ?thesis by (rule conjI)
qed


end
